theory Spec2Isabelle
  imports Complex_Main "HOL-Library.Multiset" "HOL-Library.Word" "HOL-Library.Signed_Division"
begin

section \<open>cat2axy: catalog loading, reference-star selection and the driver\<close>

text \<open>
  A shallow embedding of \<^verbatim>\<open>src/cat2axy.cpp\<close>. The functions of the C and C++ run-time
  libraries that the program calls are not part of the repository; they are taken as
  parameters of the functions that call them:
  \<^item> \<open>atof\<close>: \<^verbatim>\<open>atof\<close> followed by the narrowing of its \<^verbatim>\<open>double\<close> to the \<^verbatim>\<open>float\<close>
    array element it is assigned to;
  \<^item> \<open>atoi\<close>: \<^verbatim>\<open>atoi\<close>;
  \<^item> \<open>fopen\<close>: the file system as \<^verbatim>\<open>fopen(path, "r")\<close> sees it, the bytes of the file
    when it can be opened for reading and \<open>None\<close> otherwise;
  \<^item> \<open>srt\<close>: \<^verbatim>\<open>std::sort\<close>, of which only the contract \<open>sort_contract\<close> is assumed;
  \<^item> \<open>rnd\<close>: the rounding of the exact result of a \<^verbatim>\<open>float\<close> subtraction to the value
    the machine computes with;
  \<^item> \<open>replace_extension\<close>: \<^verbatim>\<open>boost::filesystem::path::replace_extension\<close>.
\<close>

subsection \<open>Values of type float\<close>

text \<open>
  A \<^verbatim>\<open>float\<close> is a real number, an infinity or a NaN. Not every real is a \<^verbatim>\<open>float\<close>;
  the statements below hold for all reals and so for the representable ones.
  Comparisons follow IEEE 754: every ordered comparison with a NaN is false.
\<close>

datatype cfloat = Fin real | PInf | NInf | NaN

fun fless :: "cfloat \<Rightarrow> cfloat \<Rightarrow> bool" where
  "fless NaN _ = False"
| "fless _ NaN = False"
| "fless (Fin a) (Fin b) = (a < b)"
| "fless (Fin a) PInf = True"
| "fless (Fin a) NInf = False"
| "fless PInf _ = False"
| "fless NInf (Fin b) = True"
| "fless NInf PInf = True"
| "fless NInf NInf = False"

definition fgreater :: "cfloat \<Rightarrow> cfloat \<Rightarrow> bool" where
  "fgreater a b = fless b a"

definition fgreater_eq :: "cfloat \<Rightarrow> cfloat \<Rightarrow> bool" where
  "fgreater_eq a b = (a \<noteq> NaN \<and> b \<noteq> NaN \<and> \<not> fless a b)"

subsection \<open>The record type\<close>

definition GRID :: "32 word" where "GRID = 128"

definition NDX_X :: nat where "NDX_X = 0"

definition NDX_Y :: nat where "NDX_Y = 1"

definition NDX_FLUX :: nat where "NDX_FLUX = 2"

definition NDX_FWHM :: nat where "NDX_FWHM = 3"

definition NDX_ELON :: nat where "NDX_ELON = 4"

definition NDX_NUM :: nat where "NDX_NUM = NDX_ELON + 1"

record aobject =
  info :: "cfloat list"

text \<open>
  \<^verbatim>\<open>boost::make_shared<aobject>()\<close> value-initialises the object: \<^verbatim>\<open>aobject\<close> has no
  constructor, so every element of \<^verbatim>\<open>info\<close> is zero.
\<close>

definition make_aobject :: aobject where
  "make_aobject = \<lparr>info = replicate NDX_NUM (Fin 0)\<rparr>"

definition less_brightness :: "aobject \<Rightarrow> aobject \<Rightarrow> bool" where
  "less_brightness x1 x2 = fgreater (info x1 ! NDX_FLUX) (info x2 ! NDX_FLUX)"

subsection \<open>Reading the file: feof and fgets\<close>

text \<open>
  An open stream is the bytes not read yet and the end-of-file indicator. \<^verbatim>\<open>fgets\<close> with
  a buffer of \<open>n\<close> bytes stores at most \<open>n - 1\<close> bytes, stopping after a newline; it sets
  the indicator when it runs out of bytes before either, and returns \<^verbatim>\<open>NULL\<close> when it
  could store nothing.
\<close>

record cfile =
  unread :: string
  eof :: bool

fun getline :: "nat \<Rightarrow> string \<Rightarrow> string \<times> string \<times> bool" where
  "getline 0 s = ([], s, False)"
| "getline (Suc n) [] = ([], [], True)"
| "getline (Suc n) (c # s) =
     (if c = CHR 0x0A then ([c], s, False)
      else (case getline n s of (l, r, e) \<Rightarrow> (c # l, r, e)))"

definition fgets :: "nat \<Rightarrow> cfile \<Rightarrow> string option \<times> cfile" where
  "fgets n fp =
     (case getline (n - 1) (unread fp) of (l, r, e) \<Rightarrow>
        (if l = [] then None else Some l, \<lparr>unread = r, eof = (eof fp \<or> e)\<rparr>))"

definition feof :: "cfile \<Rightarrow> bool" where
  "feof fp = eof fp"

subsection \<open>Tokens: strtok\<close>

text \<open>
  The buffer holds a C string: it ends at the first NUL byte. \<^verbatim>\<open>strtok\<close> skips the
  separators, returns \<^verbatim>\<open>NULL\<close> when nothing is left, and otherwise returns the bytes up
  to the next separator and keeps the position after it for the next call.
\<close>

definition c_str :: "string \<Rightarrow> string" where
  "c_str s = takeWhile (\<lambda>c. c \<noteq> CHR 0x00) s"

definition first_byte :: "string \<Rightarrow> char" where
  "first_byte line = (case line of [] \<Rightarrow> CHR 0x00 | c # _ \<Rightarrow> c)"

definition seps :: string where
  "seps = [CHR '' '', CHR 0x0D]"

definition strtok :: "string \<Rightarrow> string \<Rightarrow> (string \<times> string) option" where
  "strtok s delim =
     (let s1 = dropWhile (\<lambda>c. c \<in> set delim) s
      in if s1 = [] then None
         else Some (takeWhile (\<lambda>c. c \<notin> set delim) s1,
                    drop 1 (dropWhile (\<lambda>c. c \<notin> set delim) s1)))"

subsection \<open>load_cat\<close>

text \<open>
  The inner loop \<^verbatim>\<open>while (token && ++pos < NDX_NUM)\<close>: \<open>token\<close> is the result of the last
  \<^verbatim>\<open>strtok\<close>, the token and the saved position.
\<close>

function fill_info ::
  "(string \<Rightarrow> cfloat) \<Rightarrow> (string \<times> string) option \<Rightarrow> int \<Rightarrow> aobject \<Rightarrow> aobject" where
  "fill_info atof token pos one =
     (case token of
        None \<Rightarrow> one
      | Some (t, saved) \<Rightarrow>
          (if pos + 1 < int NDX_NUM
           then fill_info atof (strtok saved seps) (pos + 1)
                  (one\<lparr>info := (info one)[nat (pos + 1) := atof t]\<rparr>)
           else one))"
  by pat_completeness auto
termination
  by (relation "measure (\<lambda>(atof, token, pos, one). nat (int NDX_NUM - pos))") auto

definition parse_line :: "(string \<Rightarrow> cfloat) \<Rightarrow> string \<Rightarrow> aobject" where
  "parse_line atof line = fill_info atof (strtok (c_str line) seps) (- 1) make_aobject"

definition admitted :: "aobject \<Rightarrow> bool" where
  "admitted one =
     (fgreater (info one ! NDX_FLUX) (Fin 30) \<and> fgreater (info one ! NDX_FWHM) (Fin 1)
      \<and> fless (info one ! NDX_ELON) (Fin 2))"

lemma getline_rest_le: "getline n s = (l, r, e) \<Longrightarrow> length r \<le> length s"
proof (induction n s arbitrary: l r e rule: getline.induct)
  case (3 n c s)
  obtain l' r' e' where g: "getline n s = (l', r', e')"
    by (cases "getline n s") auto
  show ?case
  proof (cases "c = CHR 0x0A")
    case True
    with "3.prems" show ?thesis by auto
  next
    case False
    from "3.IH" [OF False g] "3.prems" False g show ?thesis by auto
  qed
qed auto

lemma getline_shorter:
  "getline n s = (l, r, e) \<Longrightarrow> l \<noteq> [] \<Longrightarrow> length r < length s"
proof (induction n s arbitrary: l r e rule: getline.induct)
  case (1 s)
  then show ?case by simp
next
  case (2 n)
  then show ?case by simp
next
  case (3 n c s)
  show ?case
  proof (cases "c = CHR 0x0A")
    case True
    with 3 show ?thesis by auto
  next
    case False
    obtain l' r' e' where g: "getline n s = (l', r', e')"
      by (cases "getline n s") auto
    with 3 False have "length r' \<le> length s"
      by (cases "l' = []") (auto dest: less_imp_le simp: getline_rest_le)
    with "3.prems" False g show ?thesis by auto
  qed
qed

lemma getline_nothing: "getline n s = ([], r, e) \<Longrightarrow> 0 < n \<Longrightarrow> e"
  by (cases n; cases s) (auto split: if_splits prod.splits)

text \<open>
  The outer loop \<^verbatim>\<open>while (!feof(fpcat))\<close>. The buffer has 200 bytes. A failed \<^verbatim>\<open>fgets\<close>
  and a line whose first byte is \<^verbatim>\<open>#\<close> go to the next iteration. The stream has no read
  errors: \<^verbatim>\<open>fgets\<close> fails only at the end of the file, with the indicator set.
\<close>

function read_loop :: "(string \<Rightarrow> cfloat) \<Rightarrow> cfile \<Rightarrow> aobject list \<Rightarrow> aobject list" where
  "read_loop atof fpcat objs =
     (if feof fpcat then objs
      else (case fgets 200 fpcat of
              (None, fp') \<Rightarrow> read_loop atof fp' objs
            | (Some line, fp') \<Rightarrow>
                (if first_byte line = CHR ''#'' then read_loop atof fp' objs
                 else (let one = parse_line atof line
                       in if admitted one then read_loop atof fp' (objs @ [one])
                          else read_loop atof fp' objs))))"
  by pat_completeness auto
termination
  apply (relation "measure (\<lambda>(atof, fp, objs). if eof fp then 0 else Suc (length (unread fp)))")
  apply (auto simp: feof_def fgets_def split: prod.splits if_splits
           dest: getline_shorter getline_nothing)
  done

subsection \<open>std::sort\<close>

text \<open>
  \<^verbatim>\<open>std::sort\<close> requires a comparison that is a strict weak ordering of the elements
  and then returns a permutation in which no element is followed by one that compares
  before it. The order of equivalent elements is not determined, so the algorithm is a
  parameter \<open>srt\<close> of which only this contract is assumed.
\<close>

definition strict_weak_on :: "'a set \<Rightarrow> ('a \<Rightarrow> 'a \<Rightarrow> bool) \<Rightarrow> bool" where
  "strict_weak_on A cmp \<longleftrightarrow>
     (\<forall>a\<in>A. \<not> cmp a a)
     \<and> (\<forall>a\<in>A. \<forall>b\<in>A. \<forall>c\<in>A. cmp a b \<and> cmp b c \<longrightarrow> cmp a c)
     \<and> (\<forall>a\<in>A. \<forall>b\<in>A. \<forall>c\<in>A.
          \<not> cmp a b \<and> \<not> cmp b a \<and> \<not> cmp b c \<and> \<not> cmp c b \<longrightarrow> \<not> cmp a c \<and> \<not> cmp c a)"

definition sort_contract ::
  "((aobject \<Rightarrow> aobject \<Rightarrow> bool) \<Rightarrow> aobject list \<Rightarrow> aobject list) \<Rightarrow> bool" where
  "sort_contract srt \<longleftrightarrow>
     (\<forall>cmp xs. strict_weak_on (set xs) cmp \<longrightarrow>
        mset (srt cmp xs) = mset xs \<and> sorted_wrt (\<lambda>a b. \<not> cmp b a) (srt cmp xs))"

definition load_cat ::
  "(string \<Rightarrow> cfloat) \<Rightarrow> ((aobject \<Rightarrow> aobject \<Rightarrow> bool) \<Rightarrow> aobject list \<Rightarrow> aobject list) \<Rightarrow>
   (string \<Rightarrow> string option) \<Rightarrow> string \<Rightarrow> aobject list \<Rightarrow> bool \<times> aobject list" where
  "load_cat atof srt fopen filepath objs =
     (case fopen filepath of
        Some bytes \<Rightarrow>
          (True, srt less_brightness (read_loop atof \<lparr>unread = bytes, eof = False\<rparr> objs))
      | None \<Rightarrow> (False, objs))"

subsection \<open>select_refstar\<close>

text \<open>
  \<^verbatim>\<open>int\<close> is a 32-bit word read in two's complement. Signed overflow is undefined in
  C++; the model wraps, as the machine instructions do. \<^verbatim>\<open>/\<close> and \<^verbatim>\<open>%\<close> truncate
  towards zero.
\<close>

definition c_div :: "32 word \<Rightarrow> 32 word \<Rightarrow> 32 word" where
  "c_div a b = word_of_int (sint a sdiv sint b)"

definition c_mod :: "32 word \<Rightarrow> 32 word \<Rightarrow> 32 word" where
  "c_mod a b = word_of_int (sint a smod sint b)"

text \<open>
  The cell coordinate \<^verbatim>\<open>(info[NDX_X] - x0) / GRID\<close> is computed in \<^verbatim>\<open>float\<close> and converted
  to \<^verbatim>\<open>int\<close>. The conversions of \<open>x0\<close> (between -63 and 63) and of \<open>GRID\<close> to \<^verbatim>\<open>float\<close>
  are exact. The subtraction is rounded by \<open>rnd\<close>. The division by 128 is exact unless the
  quotient is subnormal, and then the quotient and its rounding are both below 1 in
  magnitude and convert to the same \<^verbatim>\<open>int\<close>: the model divides exactly. The conversion
  to \<^verbatim>\<open>int\<close> truncates towards zero; it is undefined for a NaN, an infinity and a value
  whose truncation is no \<^verbatim>\<open>int\<close>, and the model stops there with a fault, as it does
  when \<^verbatim>\<open>map\<close> is indexed outside its bounds.
\<close>

datatype fault = Conversion_Undefined | Index_Out_Of_Bounds

fun fsub :: "(real \<Rightarrow> real) \<Rightarrow> cfloat \<Rightarrow> 32 word \<Rightarrow> cfloat" where
  "fsub rnd (Fin a) n = Fin (rnd (a - real_of_int (sint n)))"
| "fsub rnd PInf n = PInf"
| "fsub rnd NInf n = NInf"
| "fsub rnd NaN n = NaN"

fun fdiv_GRID :: "cfloat \<Rightarrow> cfloat" where
  "fdiv_GRID (Fin a) = Fin (a / real_of_int (sint GRID))"
| "fdiv_GRID PInf = PInf"
| "fdiv_GRID NInf = NInf"
| "fdiv_GRID NaN = NaN"

definition trunc :: "real \<Rightarrow> int" where
  "trunc r = (if 0 \<le> r then \<lfloor>r\<rfloor> else \<lceil>r\<rceil>)"

fun float_to_int :: "cfloat \<Rightarrow> fault + 32 word" where
  "float_to_int (Fin r) =
     (if - (2 ^ 31) \<le> trunc r \<and> trunc r < 2 ^ 31 then Inr (word_of_int (trunc r))
      else Inl Conversion_Undefined)"
| "float_to_int PInf = Inl Conversion_Undefined"
| "float_to_int NInf = Inl Conversion_Undefined"
| "float_to_int NaN = Inl Conversion_Undefined"

definition cell_coord :: "(real \<Rightarrow> real) \<Rightarrow> cfloat \<Rightarrow> 32 word \<Rightarrow> fault + 32 word" where
  "cell_coord rnd v v0 = float_to_int (fdiv_GRID (fsub rnd v v0))"

text \<open>
  One iteration of the loop over \<open>objs\<close>. The state is the array \<^verbatim>\<open>map\<close> of \<^verbatim>\<open>char\<close>
  counters (here \<open>cmap\<close>) and the vector \<open>refs\<close>. The counters stay between 0 and 6, where
  a signed and an unsigned \<^verbatim>\<open>char\<close> agree.
\<close>

definition select_step ::
  "(real \<Rightarrow> real) \<Rightarrow> 32 word \<Rightarrow> 32 word \<Rightarrow> 32 word \<Rightarrow> 32 word \<Rightarrow> aobject \<Rightarrow>
   8 word list \<times> aobject list \<Rightarrow> fault + 8 word list \<times> aobject list" where
  "select_step rnd nw nh x0 y0 it st =
     (case st of (cmap, refs) \<Rightarrow>
      (case cell_coord rnd (info it ! NDX_X) x0 of
         Inl e \<Rightarrow> Inl e
       | Inr i \<Rightarrow>
      (case cell_coord rnd (info it ! NDX_Y) y0 of
         Inl e \<Rightarrow> Inl e
       | Inr j \<Rightarrow>
           if i = nw \<or> j = nh then Inr (cmap, refs)
           else (let k = i * j
                 in if 0 \<le> sint k \<and> sint k < int (length cmap)
                    then (if sint (cmap ! nat (sint k)) \<le> 5
                          then Inr (cmap[nat (sint k) := cmap ! nat (sint k) + 1], refs @ [it])
                          else Inr (cmap, refs))
                    else Inl Index_Out_Of_Bounds))))"

fun select_loop ::
  "(real \<Rightarrow> real) \<Rightarrow> 32 word \<Rightarrow> 32 word \<Rightarrow> 32 word \<Rightarrow> 32 word \<Rightarrow> aobject list \<Rightarrow>
   8 word list \<times> aobject list \<Rightarrow> fault + 8 word list \<times> aobject list" where
  "select_loop rnd nw nh x0 y0 [] st = Inr st"
| "select_loop rnd nw nh x0 y0 (it # objs) st =
     (case select_step rnd nw nh x0 y0 it st of
        Inl e \<Rightarrow> Inl e
      | Inr st' \<Rightarrow> select_loop rnd nw nh x0 y0 objs st')"

definition select_refstar ::
  "(real \<Rightarrow> real) \<Rightarrow> aobject list \<Rightarrow> 32 word \<Rightarrow> 32 word \<Rightarrow> aobject list \<Rightarrow>
   fault + aobject list" where
  "select_refstar rnd objs w h refs =
     (let nw = c_div (w + GRID - 1) GRID;
          nh = c_div (h + GRID - 1) GRID
      in if sint (nw * nh) < 4 then Inr (refs @ objs)
         else (let x0 = c_div (c_mod w GRID) 2;
                   y0 = c_div (c_mod h GRID) 2;
                   cmap = replicate (nat (sint (nw * nh))) 0
               in (case select_loop rnd nw nh x0 y0 objs (cmap, refs) of
                     Inl e \<Rightarrow> Inl e
                   | Inr (cmap', refs') \<Rightarrow> Inr refs')))"

subsection \<open>output_axy and main\<close>

text \<open>
  \<^verbatim>\<open>output_axy\<close> removes a file that is at the path and hands the two columns to the
  FITS library, which is outside the repository: the model records the table that is
  written, its path and its columns \<open>X\<close> and \<open>Y\<close>, and leaves out the error text that is
  printed when the library reports a failure. What the program does is its text on the standard output, the tables
  written, in order, and the value \<open>main\<close> returns.
\<close>

record axy_table =
  axy_path :: string
  axy_X :: "cfloat list"
  axy_Y :: "cfloat list"

definition output_axy :: "aobject list \<Rightarrow> string \<Rightarrow> axy_table" where
  "output_axy refs filepath =
     \<lparr>axy_path = filepath,
      axy_X = map (\<lambda>r. info r ! NDX_X) refs,
      axy_Y = map (\<lambda>r. info r ! NDX_Y) refs\<rparr>"

record outcome =
  cout :: string
  tables :: "axy_table list"
  returned :: int

definition endl :: string where
  "endl = [CHR 0x0A]"

definition main ::
  "(string \<Rightarrow> cfloat) \<Rightarrow> (string \<Rightarrow> 32 word) \<Rightarrow>
   ((aobject \<Rightarrow> aobject \<Rightarrow> bool) \<Rightarrow> aobject list \<Rightarrow> aobject list) \<Rightarrow> (real \<Rightarrow> real) \<Rightarrow>
   (string \<Rightarrow> string \<Rightarrow> string) \<Rightarrow> (string \<Rightarrow> string option) \<Rightarrow> string list \<Rightarrow>
   fault + outcome" where
  "main atof atoi srt rnd replace_extension fopen argv =
     (if length argv < 4
      then Inr \<lparr>cout = ''Usage:'' @ endl @ [CHR 0x09] @ '' cat2axy CAT_Path X Y'' @ endl
                         @ concat (map (\<lambda>a. a @ ''  '') argv) @ endl,
                tables = [], returned = - 1\<rparr>
      else (let pathcat = argv ! 1;
                pathaxy = replace_extension pathcat ''.axy'';
                w = atoi (argv ! 2);
                h = atoi (argv ! 3)
            in (case load_cat atof srt fopen pathcat [] of
                  (True, objs) \<Rightarrow>
                    (case select_refstar rnd objs w h [] of
                       Inl e \<Rightarrow> Inl e
                     | Inr refs \<Rightarrow>
                         if length refs \<ge> 5
                         then Inr \<lparr>cout = [], tables = [output_axy refs pathaxy], returned = 0\<rparr>
                         else Inr \<lparr>cout = ''not found enough reference stars'' @ endl,
                                   tables = [], returned = 0\<rparr>)
                | (False, objs) \<Rightarrow>
                    Inr \<lparr>cout = ''failed to load CAT file: '' @ argv ! 1 @ endl,
                         tables = [], returned = 0\<rparr>)))"

section \<open>Vocabulary of the statements\<close>

text \<open>
  The lines of a file are the strings that the successive calls of \<^verbatim>\<open>fgets\<close> in the
  loop of \<open>load_cat\<close> return; the data lines are those that do not start with \<^verbatim>\<open>#\<close>.
  The tokens of a line are the strings that the successive calls of \<^verbatim>\<open>strtok\<close> return.
\<close>

declare read_loop.simps [simp del] fill_info.simps [simp del]

function read_lines :: "cfile \<Rightarrow> string list" where
  "read_lines fp =
     (if feof fp then []
      else (case fgets 200 fp of
              (None, fp') \<Rightarrow> read_lines fp'
            | (Some line, fp') \<Rightarrow> line # read_lines fp'))"
  by pat_completeness auto
termination
  apply (relation "measure (\<lambda>fp. if eof fp then 0 else Suc (length (unread fp)))")
  apply (auto simp: feof_def fgets_def split: prod.splits if_splits
           dest: getline_shorter getline_nothing)
  done

declare read_lines.simps [simp del]

definition data_lines :: "string \<Rightarrow> string list" where
  "data_lines bytes =
     filter (\<lambda>line. first_byte line \<noteq> CHR ''#'') (read_lines \<lparr>unread = bytes, eof = False\<rparr>)"

definition parsed_records :: "(string \<Rightarrow> cfloat) \<Rightarrow> string \<Rightarrow> aobject list" where
  "parsed_records atof bytes = map (parse_line atof) (data_lines bytes)"

lemma strtok_shorter: "strtok s d = Some (t, saved) \<Longrightarrow> length saved < length s"
proof -
  assume a: "strtok s d = Some (t, saved)"
  let ?s1 = "dropWhile (\<lambda>c. c \<in> set d) s"
  let ?s2 = "dropWhile (\<lambda>c. c \<notin> set d) ?s1"
  from a have ne: "?s1 \<noteq> []" and sv: "saved = drop 1 ?s2"
    by (auto simp: strtok_def Let_def split: if_splits)
  have l1: "length ?s2 \<le> length ?s1" by (rule length_dropWhile_le)
  have l2: "length ?s1 \<le> length s" by (rule length_dropWhile_le)
  from ne have p: "0 < length ?s1" by simp
  have e: "length saved = length ?s2 - 1" by (simp add: sv)
  show ?thesis using e l1 l2 p by linarith
qed

function strtok_all :: "string \<Rightarrow> string list" where
  "strtok_all s = (case strtok s seps of None \<Rightarrow> [] | Some (t, saved) \<Rightarrow> t # strtok_all saved)"
  by pat_completeness auto
termination
  by (relation "measure length") (auto dest: strtok_shorter)

declare strtok_all.simps [simp del]

definition line_tokens :: "string \<Rightarrow> string list" where
  "line_tokens line = strtok_all (c_str line)"

text \<open>
  The numbers of columns and rows \<^verbatim>\<open>nw\<close> and \<^verbatim>\<open>nh\<close> and the origin \<^verbatim>\<open>x0\<close>, \<^verbatim>\<open>y0\<close>, as
  \<open>select_refstar\<close> computes them from the width and the height.
\<close>

definition cell_count :: "32 word \<Rightarrow> 32 word" where
  "cell_count v = c_div (v + GRID - 1) GRID"

definition origin :: "32 word \<Rightarrow> 32 word" where
  "origin v = c_div (c_mod v GRID) 2"

text \<open>
  The index of the counter that an iteration of the loop tests for a candidate: none
  when a conversion is undefined, when the candidate is discarded or when the product is
  negative.
\<close>

definition counter_index ::
  "(real \<Rightarrow> real) \<Rightarrow> 32 word \<Rightarrow> 32 word \<Rightarrow> 32 word \<Rightarrow> 32 word \<Rightarrow> aobject \<Rightarrow> nat option" where
  "counter_index rnd nw nh x0 y0 it =
     (case cell_coord rnd (info it ! NDX_X) x0 of
        Inl e \<Rightarrow> None
      | Inr i \<Rightarrow>
     (case cell_coord rnd (info it ! NDX_Y) y0 of
        Inl e \<Rightarrow> None
      | Inr j \<Rightarrow>
          if i = nw \<or> j = nh \<or> sint (i * j) < 0 then None else Some (nat (sint (i * j)))))"

text \<open>
  The invariant of the loop of \<open>select_refstar\<close>: every accepted candidate has a counter,
  and every counter holds the number of accepted candidates that have it, at most 6.
\<close>

definition cap_inv ::
  "(real \<Rightarrow> real) \<Rightarrow> 32 word \<Rightarrow> 32 word \<Rightarrow> 32 word \<Rightarrow> 32 word \<Rightarrow>
   8 word list \<Rightarrow> aobject list \<Rightarrow> bool" where
  "cap_inv rnd nw nh x0 y0 cmap refs \<longleftrightarrow>
     (\<forall>it\<in>set refs. \<exists>k<length cmap. counter_index rnd nw nh x0 y0 it = Some k)
     \<and> (\<forall>k<length cmap.
           sint (cmap ! k) = int (length (filter (\<lambda>it. counter_index rnd nw nh x0 y0 it = Some k) refs))
           \<and> sint (cmap ! k) \<le> 6)"

text \<open>
  An iteration of the loop is defined for a candidate when both conversions are defined
  and the candidate is discarded or its counter is inside the array of \<open>n\<close> counters. A
  rounding like that of \<^verbatim>\<open>float\<close> is monotone and leaves the integers up to 2^24 as
  they are.
\<close>

definition step_defined ::
  "(real \<Rightarrow> real) \<Rightarrow> 32 word \<Rightarrow> 32 word \<Rightarrow> 32 word \<Rightarrow> 32 word \<Rightarrow> nat \<Rightarrow> aobject \<Rightarrow> bool" where
  "step_defined rnd nw nh x0 y0 n it \<longleftrightarrow>
     (\<exists>i j. cell_coord rnd (info it ! NDX_X) x0 = Inr i \<and> cell_coord rnd (info it ! NDX_Y) y0 = Inr j
        \<and> (i = nw \<or> j = nh \<or> (0 \<le> sint (i * j) \<and> sint (i * j) < int n)))"

definition rounds_like_float :: "(real \<Rightarrow> real) \<Rightarrow> bool" where
  "rounds_like_float rnd \<longleftrightarrow>
     (\<forall>a b. a \<le> b \<longrightarrow> rnd a \<le> rnd b)
     \<and> (\<forall>n::int. \<bar>n\<bar> \<le> 2 ^ 24 \<longrightarrow> rnd (real_of_int n) = real_of_int n)"

text \<open>
  The lines of a file are its maximal pieces that end with a newline, and what follows
  the last newline if anything does; \<open>read_lines\<close> gives these lines when each of them,
  its newline included, has at most 199 bytes, and pieces of a longer line otherwise. The
  runs of a string are its maximal substrings without a separator.
\<close>

fun text_lines :: "string \<Rightarrow> string list" where
  "text_lines [] = []"
| "text_lines (c # s) =
     (if c = CHR 0x0A then [c] # text_lines s
      else (case text_lines s of [] \<Rightarrow> [[c]] | l # ls \<Rightarrow> (c # l) # ls))"

fun token_runs :: "(char \<Rightarrow> bool) \<Rightarrow> string \<Rightarrow> string list" where
  "token_runs sep [] = []"
| "token_runs sep [c] = (if sep c then [] else [[c]])"
| "token_runs sep (c # d # s) =
     (if sep c then token_runs sep (d # s)
      else if sep d then [c] # token_runs sep s
      else (case token_runs sep (d # s) of [] \<Rightarrow> [[c]] | t # ts \<Rightarrow> (c # t) # ts))"

section \<open>Sample inputs\<close>

text \<open>
  To run the model on concrete inputs, \<open>atof_digits\<close> and \<open>atoi_digits\<close> stand for \<open>atof\<close>
  and \<open>atoi\<close> on tokens that are a run of decimal digits, alone or followed by a newline,
  \<open>replace_after_dot\<close> for \<open>replace_extension\<close> on a path whose last dot is in its last
  component, \<open>insertion_sort\<close> and \<open>insertion_sort_rev\<close>, which order equal elements differently, for
  \<open>std::sort\<close>, and the identity for the rounding \<open>rnd\<close>: the subtractions in the samples
  are exact.
\<close>

definition atof_digits :: "string \<Rightarrow> cfloat" where
  "atof_digits t =
     Fin (real (foldl (\<lambda>a c. 10 * a + (of_char c - (48::nat))) 0
                  (takeWhile (\<lambda>c. c \<in> set ''0123456789'') t)))"

definition atoi_digits :: "string \<Rightarrow> 32 word" where
  "atoi_digits t =
     word_of_nat (foldl (\<lambda>a c. 10 * a + (of_char c - (48::nat))) 0
                    (takeWhile (\<lambda>c. c \<in> set ''0123456789'') t))"

definition replace_after_dot :: "string \<Rightarrow> string \<Rightarrow> string" where
  "replace_after_dot p ext =
     (if CHR ''.'' \<in> set p then rev (drop 1 (dropWhile (\<lambda>c. c \<noteq> CHR ''.'') (rev p))) @ ext
      else p @ ext)"

fun insert_by :: "('a \<Rightarrow> 'a \<Rightarrow> bool) \<Rightarrow> 'a \<Rightarrow> 'a list \<Rightarrow> 'a list" where
  "insert_by cmp x [] = [x]"
| "insert_by cmp x (y # ys) = (if cmp x y then x # y # ys else y # insert_by cmp x ys)"

fun insertion_sort :: "('a \<Rightarrow> 'a \<Rightarrow> bool) \<Rightarrow> 'a list \<Rightarrow> 'a list" where
  "insertion_sort cmp [] = []"
| "insertion_sort cmp (x # xs) = insert_by cmp x (insertion_sort cmp xs)"

definition insertion_sort_rev :: "('a \<Rightarrow> 'a \<Rightarrow> bool) \<Rightarrow> 'a list \<Rightarrow> 'a list" where
  "insertion_sort_rev cmp xs = insertion_sort cmp (rev xs)"

definition star :: "real \<Rightarrow> real \<Rightarrow> real \<Rightarrow> real \<Rightarrow> real \<Rightarrow> aobject" where
  "star x y flux fwhm elon = \<lparr>info = [Fin x, Fin y, Fin flux, Fin fwhm, Fin elon]\<rparr>"

text \<open>
  Catalogs: one with a comment, an underexposed star and a line of four tokens; one whose
  only line has four tokens; one with a comment and a line of three tokens; one with five
  good stars.
\<close>

definition sample_cat :: string where
  "sample_cat = ''# X Y FLUX FWHM ELONGATION\<newline>10 20 100 3 1\<newline>30 40 20 3 1\<newline>50 60 200 3 1\<newline>70 80 100 3\<newline>''"

definition sample_fs :: "string \<Rightarrow> string option" where
  "sample_fs filepath = (if filepath = ''sample.cat'' then Some sample_cat else None)"

definition short_cat :: string where
  "short_cat = ''1 2 100 3\<newline>''"

definition short_fs :: "string \<Rightarrow> string option" where
  "short_fs filepath = (if filepath = ''short.cat'' then Some short_cat else None)"

definition comment_cat :: string where
  "comment_cat = ''# only a comment\<newline>5 6 700\<newline>''"

definition comment_fs :: "string \<Rightarrow> string option" where
  "comment_fs filepath = (if filepath = ''comment.cat'' then Some comment_cat else None)"

definition five_cat :: string where
  "five_cat = ''10 20 100 3 1\<newline>30 40 500 3 1\<newline>50 60 200 3 1\<newline>70 80 400 3 1\<newline>90 95 300 3 1\<newline>''"

definition five_fs :: "string \<Rightarrow> string option" where
  "five_fs filepath = (if filepath = ''five.cat'' then Some five_cat else None)"

definition five_stars :: "aobject list" where
  "five_stars = [star 30 40 500 3 1, star 70 80 400 3 1, star 90 95 300 3 1,
                 star 50 60 200 3 1, star 10 20 100 3 1]"

text \<open>
  Eight stars on a 512 by 512 image (a grid of 4 by 4 cells with origin 0): six in the
  cell (1, 2), then one in the cell (2, 1), then one more in the cell (1, 2).
\<close>

definition crowd :: "aobject list" where
  "crowd = [star 200 300 900 3 1, star 210 310 800 3 1, star 220 320 700 3 1,
            star 230 330 600 3 1, star 240 340 500 3 1, star 250 350 400 3 1,
            star 300 200 300 3 1, star 255 383 200 3 1]"

section \<open>Properties of the model\<close>

subsection \<open>Lines, tokens and records\<close>

lemma strtok_all_None: "strtok s seps = None \<Longrightarrow> strtok_all s = []"
  by (subst strtok_all.simps) simp

lemma strtok_all_Some: "strtok s seps = Some (t, saved) \<Longrightarrow> strtok_all s = t # strtok_all saved"
  by (subst strtok_all.simps) simp

lemma fill_info_None: "fill_info atof None pos one = one"
  by (subst fill_info.simps) simp

lemma fill_info_Some:
  "fill_info atof (Some (t, saved)) pos one =
     (if pos + 1 < 5
      then fill_info atof (strtok saved seps) (pos + 1)
             (one\<lparr>info := (info one)[nat (pos + 1) := atof t]\<rparr>)
      else one)"
  by (subst fill_info.simps) (simp add: NDX_NUM_def NDX_ELON_def)

lemma fill_info_eq:
  "n \<le> 5 \<Longrightarrow> length xs = 5 \<Longrightarrow>
   info (fill_info atof (strtok s seps) (int n - 1) \<lparr>info = xs\<rparr>) =
     take n xs @ map atof (take (5 - n) (strtok_all s))
       @ drop (n + length (take (5 - n) (strtok_all s))) xs"
proof (induction "5 - n" arbitrary: n s xs)
  case 0
  then have n: "n = 5" by simp
  show ?case
    by (cases "strtok s seps") (auto simp: n fill_info_None fill_info_Some "0.prems")
next
  case (Suc k)
  then have n: "n < 5" by simp
  show ?case
  proof (cases "strtok s seps")
    case None
    then show ?thesis
      by (simp add: fill_info_None strtok_all_None)
  next
    case (Some a)
    obtain t saved where a: "a = (t, saved)" by (cases a)
    have k: "k = 5 - Suc n" using Suc by simp
    have i: "int n - 1 + 1 = int (Suc n) - 1" by simp
    have ih: "info (fill_info atof (strtok saved seps) (int (Suc n) - 1) \<lparr>info = xs[n := atof t]\<rparr>) =
     take (Suc n) (xs[n := atof t]) @ map atof (take (5 - Suc n) (strtok_all saved))
       @ drop (Suc n + length (take (5 - Suc n) (strtok_all saved))) (xs[n := atof t])"
      using Suc.hyps(1) [OF k, of "xs[n := atof t]" saved] n Suc.prems by simp
    have tk: "take (5 - n) (t # strtok_all saved) = t # take (5 - Suc n) (strtok_all saved)"
    proof -
      have "5 - n = Suc (5 - Suc n)" using n by simp
      then show ?thesis by (simp only: take_Suc_Cons)
    qed
    have sa: "strtok_all s = t # strtok_all saved"
      using Some a by (simp add: strtok_all_Some)
    have st: "fill_info atof (strtok s seps) (int n - 1) \<lparr>info = xs\<rparr>
        = fill_info atof (strtok saved seps) (int (Suc n) - 1) \<lparr>info = xs[n := atof t]\<rparr>"
      unfolding Some a fill_info_Some i using n by simp
    have tu: "take (Suc n) (xs[n := atof t]) = take n xs @ [atof t]"
      using n Suc.prems by (simp add: take_Suc_conv_app_nth)
    show ?thesis
      unfolding st ih sa tk tu by simp
  qed
qed

lemma parse_line_info:
  "info (parse_line atof line) =
     map atof (take 5 (line_tokens line)) @ replicate (5 - length (line_tokens line)) (Fin 0)"
proof -
  have "info (parse_line atof line) =
      map atof (take 5 (line_tokens line))
        @ drop (length (take 5 (line_tokens line))) (replicate 5 (Fin 0))"
    using fill_info_eq [of 0 "replicate 5 (Fin 0)" atof "c_str line"]
    by (simp add: parse_line_def make_aobject_def line_tokens_def NDX_NUM_def NDX_ELON_def)
  then show ?thesis by (simp add: min_def)
qed

lemma parse_line_nth:
  "k < 5 \<Longrightarrow> info (parse_line atof line) ! k =
     (if k < length (line_tokens line) then atof (line_tokens line ! k) else Fin 0)"
  by (auto simp: parse_line_info nth_append)

lemma admitted_four_tokens: "admitted (parse_line atof line) \<Longrightarrow> 4 \<le> length (line_tokens line)"
proof (rule ccontr)
  assume a: "admitted (parse_line atof line)" and "\<not> 4 \<le> length (line_tokens line)"
  then have "info (parse_line atof line) ! NDX_FWHM = Fin 0"
    by (simp add: parse_line_nth NDX_FWHM_def)
  with a show False by (simp add: admitted_def fgreater_def)
qed

lemma read_loop_eof: "feof fp \<Longrightarrow> read_loop atof fp objs = objs"
  by (subst read_loop.simps) simp

lemma read_lines_eof: "feof fp \<Longrightarrow> read_lines fp = []"
  by (subst read_lines.simps) simp

lemma read_loop_eq:
  "read_loop atof fp objs =
     objs @ filter admitted (map (parse_line atof)
              (filter (\<lambda>line. first_byte line \<noteq> CHR ''#'') (read_lines fp)))"
proof (induction atof fp objs rule: read_loop.induct)
  case (1 atof fpcat objs)
  show ?case
  proof (cases "feof fpcat")
    case True
    then show ?thesis by (simp add: read_loop_eof read_lines_eof)
  next
    case False
    obtain y fp' where g: "fgets 200 fpcat = (y, fp')" by (cases "fgets 200 fpcat")
    show ?thesis
    proof (cases y)
      case None
      have a: "read_loop atof fpcat objs = read_loop atof fp' objs"
        by (subst read_loop.simps) (simp add: False g None)
      have b: "read_lines fpcat = read_lines fp'"
        by (subst read_lines.simps) (simp add: False g None)
      show ?thesis unfolding a b
        using "1.IH"(1) [OF False g [symmetric] None] .
    next
      case (Some line)
      have b: "read_lines fpcat = line # read_lines fp'"
        by (subst read_lines.simps) (simp add: False g Some)
      show ?thesis
      proof (cases "first_byte line = CHR ''#''")
        case True
        have a: "read_loop atof fpcat objs = read_loop atof fp' objs"
          by (subst read_loop.simps) (simp add: False g Some True)
        show ?thesis unfolding a b
          using "1.IH"(2) [OF False g [symmetric] Some True] True by simp
      next
        case nc: False
        show ?thesis
        proof (cases "admitted (parse_line atof line)")
          case True
          have a: "read_loop atof fpcat objs = read_loop atof fp' (objs @ [parse_line atof line])"
            by (subst read_loop.simps) (simp add: False g Some nc True Let_def)
          show ?thesis unfolding a b
            using "1.IH"(3) [OF False g [symmetric] Some nc refl True] nc True by simp
        next
          case na: False
          have a: "read_loop atof fpcat objs = read_loop atof fp' objs"
            by (subst read_loop.simps) (simp add: False g Some nc na Let_def)
          show ?thesis unfolding a b
            using "1.IH"(4) [OF False g [symmetric] Some nc refl na] nc na by simp
        qed
      qed
    qed
  qed
qed

subsection \<open>Sorting\<close>

lemma mset_insert_by: "mset (insert_by cmp x ys) = add_mset x (mset ys)"
  by (induction ys) auto

lemma mset_insertion_sort: "mset (insertion_sort cmp xs) = mset xs"
  by (induction xs) (auto simp: mset_insert_by)

lemma set_insert_by: "set (insert_by cmp x ys) = insert x (set ys)"
  using mset_insert_by [of cmp x ys, THEN arg_cong, of set_mset] by simp

lemma sorted_insert_by:
  assumes sw: "strict_weak_on A cmp" and x: "x \<in> A"
  shows "set ys \<subseteq> A \<Longrightarrow> sorted_wrt (\<lambda>a b. \<not> cmp b a) ys
     \<Longrightarrow> sorted_wrt (\<lambda>a b. \<not> cmp b a) (insert_by cmp x ys)"
proof (induction ys)
  case Nil
  then show ?case by simp
next
  case (Cons y ys)
  from sw have irr: "\<And>a. a \<in> A \<Longrightarrow> \<not> cmp a a"
    and tr: "\<And>a b c. a \<in> A \<Longrightarrow> b \<in> A \<Longrightarrow> c \<in> A \<Longrightarrow> cmp a b \<Longrightarrow> cmp b c \<Longrightarrow> cmp a c"
    unfolding strict_weak_on_def by blast+
  from Cons.prems have yA: "y \<in> A" and ysA: "set ys \<subseteq> A"
    and ys: "sorted_wrt (\<lambda>a b. \<not> cmp b a) ys" and yz: "\<forall>z\<in>set ys. \<not> cmp z y"
    by auto
  show ?case
  proof (cases "cmp x y")
    case True
    have "\<not> cmp y x" using irr [OF x] tr [OF x yA x True] by blast
    moreover have "\<forall>z\<in>set ys. \<not> cmp z x"
    proof
      fix z assume z: "z \<in> set ys"
      with ysA have zA: "z \<in> A" by blast
      show "\<not> cmp z x" using tr [OF zA x yA _ True] yz z by blast
    qed
    ultimately show ?thesis using True ys yz by simp
  next
    case False
    with Cons.IH [OF ysA ys] yz show ?thesis by (simp add: set_insert_by)
  qed
qed

lemma sorted_insertion_sort:
  "strict_weak_on A cmp \<Longrightarrow> set xs \<subseteq> A \<Longrightarrow> sorted_wrt (\<lambda>a b. \<not> cmp b a) (insertion_sort cmp xs)"
proof (induction xs)
  case Nil
  then show ?case by simp
next
  case (Cons x xs)
  have "set (insertion_sort cmp xs) = set xs"
    using mset_insertion_sort [of cmp xs, THEN arg_cong, of set_mset] by simp
  with Cons show ?case by (simp add: sorted_insert_by)
qed

lemma insertion_sort_contract: "sort_contract insertion_sort"
  unfolding sort_contract_def
  by (auto simp: mset_insertion_sort intro: sorted_insertion_sort)

lemma insertion_sort_rev_contract: "sort_contract insertion_sort_rev"
  unfolding sort_contract_def insertion_sort_rev_def
  by (auto simp: mset_insertion_sort intro: sorted_insertion_sort)

lemma fless_irrefl: "\<not> fless a a"
  by (cases a) auto

lemma fless_trans: "fless a b \<Longrightarrow> fless b c \<Longrightarrow> fless a c"
  by (cases a; cases b; cases c) auto

lemma fless_incomparable:
  "a \<noteq> NaN \<Longrightarrow> b \<noteq> NaN \<Longrightarrow> \<not> fless a b \<Longrightarrow> \<not> fless b a \<Longrightarrow> a = b"
  by (cases a; cases b) auto

lemma fgreater_not_NaN: "fgreater a b \<Longrightarrow> a \<noteq> NaN \<and> b \<noteq> NaN"
  unfolding fgreater_def by (cases a; cases b) auto

lemma admitted_flux: "admitted one \<Longrightarrow> info one ! NDX_FLUX \<noteq> NaN"
  unfolding admitted_def by (auto dest: fgreater_not_NaN)

lemma less_brightness_strict_weak:
  assumes "\<forall>one\<in>A. info one ! NDX_FLUX \<noteq> NaN"
  shows "strict_weak_on A less_brightness"
  unfolding strict_weak_on_def less_brightness_def fgreater_def
proof (intro conjI ballI impI)
  fix a show "\<not> fless (info a ! NDX_FLUX) (info a ! NDX_FLUX)" by (rule fless_irrefl)
next
  fix a b c
  assume "fless (info b ! NDX_FLUX) (info a ! NDX_FLUX) \<and> fless (info c ! NDX_FLUX) (info b ! NDX_FLUX)"
  then show "fless (info c ! NDX_FLUX) (info a ! NDX_FLUX)" by (blast intro: fless_trans)
next
  fix a b c
  assume m: "a \<in> A" "b \<in> A" "c \<in> A"
    and i: "\<not> fless (info b ! NDX_FLUX) (info a ! NDX_FLUX) \<and> \<not> fless (info a ! NDX_FLUX) (info b ! NDX_FLUX)
      \<and> \<not> fless (info c ! NDX_FLUX) (info b ! NDX_FLUX) \<and> \<not> fless (info b ! NDX_FLUX) (info c ! NDX_FLUX)"
  from m assms have n: "info a ! NDX_FLUX \<noteq> NaN" "info b ! NDX_FLUX \<noteq> NaN" "info c ! NDX_FLUX \<noteq> NaN"
    by auto
  from i n have "info a ! NDX_FLUX = info b ! NDX_FLUX" "info b ! NDX_FLUX = info c ! NDX_FLUX"
    by (auto dest: fless_incomparable)
  then have e: "info a ! NDX_FLUX = info c ! NDX_FLUX" by simp
  show "\<not> fless (info c ! NDX_FLUX) (info a ! NDX_FLUX)" unfolding e by (rule fless_irrefl)
  show "\<not> fless (info a ! NDX_FLUX) (info c ! NDX_FLUX)" unfolding e by (rule fless_irrefl)
qed

lemma load_cat_opened:
  assumes "sort_contract srt" and "fopen filepath = Some bytes"
  shows "\<exists>objs. load_cat atof srt fopen filepath [] = (True, objs)
           \<and> mset objs = mset (filter admitted (parsed_records atof bytes))
           \<and> sorted_wrt (\<lambda>a b. \<not> less_brightness b a) objs"
proof -
  let ?xs = "filter admitted (parsed_records atof bytes)"
  have r: "read_loop atof \<lparr>unread = bytes, eof = False\<rparr> [] = ?xs"
    by (simp add: read_loop_eq parsed_records_def data_lines_def)
  have "strict_weak_on (set ?xs) less_brightness"
    by (rule less_brightness_strict_weak) (auto dest: admitted_flux)
  with assms(1) have "mset (srt less_brightness ?xs) = mset ?xs
      \<and> sorted_wrt (\<lambda>a b. \<not> less_brightness b a) (srt less_brightness ?xs)"
    unfolding sort_contract_def by blast
  then show ?thesis
    by (simp add: load_cat_def assms(2) r)
qed

lemma load_cat_set:
  assumes "sort_contract srt" and "fopen filepath = Some bytes"
    and "load_cat atof srt fopen filepath [] = (ok, objs)"
  shows "ok \<and> set objs = {one \<in> set (parsed_records atof bytes). admitted one}"
proof -
  from load_cat_opened [where fopen = fopen and filepath = filepath, OF assms(1,2), of atof] assms(3)
  have ok: "ok" and m: "mset objs = mset (filter admitted (parsed_records atof bytes))"
    by auto
  from m have "set objs = set (filter admitted (parsed_records atof bytes))"
    by (rule mset_eq_setD)
  with ok show ?thesis by simp
qed

subsection \<open>The grid and the counters\<close>

lemma sdiv_nonneg: "0 \<le> k \<Longrightarrow> 0 < l \<Longrightarrow> (k::int) sdiv l = k div l"
  by (cases "k = 0") (simp_all add: signed_divide_int_def)

lemma smod_nonneg: "0 \<le> k \<Longrightarrow> 0 < l \<Longrightarrow> (k::int) smod l = k mod l"
  by (cases "k = 0") (simp_all add: signed_modulo_int_def)

lemma sint_32_of_int: "- (2 ^ 31) \<le> k \<Longrightarrow> k < 2 ^ 31 \<Longrightarrow> sint (word_of_int k :: 32 word) = k"
  by (simp add: sint_sbintrunc' signed_take_bit_int_eq_self)

lemma sint_0_word: "sint (v :: 32 word) = 0 \<Longrightarrow> v = 0"
proof -
  assume "sint v = 0"
  then have "word_of_int (sint v) = (word_of_int 0 :: 32 word)" by simp
  then show ?thesis by simp
qed

lemma sint_cell_count:
  assumes "0 \<le> sint v" and "sint v + 127 < 2 ^ 31"
  shows "sint (cell_count v) = (sint v + 127) div 128"
proof -
  have "sint (v + 127) = signed_take_bit 31 (sint v + 127)"
    using sint_word_add [of v 127] by simp
  also have "\<dots> = sint v + 127"
    using assms by (intro signed_take_bit_int_eq_self) simp_all
  finally have s: "sint (v + GRID - 1) = sint v + 127" by (simp add: GRID_def add.commute)
  have q: "(sint v + 127) sdiv 128 = (sint v + 127) div 128"
    using assms by (intro sdiv_nonneg) simp_all
  have "0 \<le> (sint v + 127) div 128" "(sint v + 127) div 128 < 2 ^ 31"
    using assms by simp_all
  then show ?thesis
    unfolding cell_count_def c_div_def s by (simp add: GRID_def q sint_32_of_int)
qed

lemma cell_count_0: "cell_count 0 = 0"
  by (simp add: cell_count_def c_div_def GRID_def signed_divide_int_def)

lemma ceiling_128: "\<lceil>real_of_int k / 128\<rceil> = (k + 127) div 128"
proof -
  have "\<lceil>real_of_int k / real_of_int 128\<rceil> = - (- k div 128)" by (rule ceiling_divide_eq_div)
  then show ?thesis by simp
qed

lemma select_refstar_eq:
  "select_refstar rnd objs w h refs =
     (if sint (cell_count w * cell_count h) < 4 then Inr (refs @ objs)
      else (case select_loop rnd (cell_count w) (cell_count h) (origin w) (origin h) objs
                   (replicate (nat (sint (cell_count w * cell_count h))) 0, refs) of
              Inl e \<Rightarrow> Inl e
            | Inr (cmap', refs') \<Rightarrow> Inr refs'))"
  by (simp add: select_refstar_def cell_count_def origin_def Let_def)

lemma few_cells:
  assumes w: "0 \<le> sint w" and h: "0 \<le> sint h"
    and c: "\<lceil>real_of_int (sint w) / 128\<rceil> * \<lceil>real_of_int (sint h) / 128\<rceil> < 4"
  shows "sint (cell_count w * cell_count h) < 4"
proof -
  let ?a = "(sint w + 127) div 128" and ?b = "(sint h + 127) div 128"
  from c have ab: "?a * ?b < 4" by (simp only: ceiling_128)
  have a0: "0 \<le> ?a" and b0: "0 \<le> ?b" using w h by simp_all
  have wlt: "sint w < 2 ^ 31" using sint_lt [of w] by simp
  have hlt: "sint h < 2 ^ 31" using sint_lt [of h] by simp
  show ?thesis
  proof (cases "sint w + 127 < 2 ^ 31")
    case wa: True
    show ?thesis
    proof (cases "sint h + 127 < 2 ^ 31")
      case ha: True
      have "0 \<le> ?a * ?b" using a0 b0 by simp
      with ab have "signed_take_bit 31 (?a * ?b) = ?a * ?b"
        by (intro signed_take_bit_int_eq_self) simp_all
      then have "sint (cell_count w * cell_count h) = ?a * ?b"
        using sint_word_mult [of "cell_count w" "cell_count h"]
        by (simp add: sint_cell_count [OF w wa] sint_cell_count [OF h ha])
      with ab show ?thesis by simp
    next
      case False
      then have "2 ^ 24 \<le> ?b" using hlt by simp
      then have "?a * 2 ^ 24 \<le> ?a * ?b" using a0 by (intro mult_left_mono) simp_all
      with ab have "?a = 0" using a0 by simp
      then have "sint w = 0" using w by simp
      then have "w = 0" by (rule sint_0_word)
      then show ?thesis by (simp add: cell_count_0)
    qed
  next
    case False
    then have "2 ^ 24 \<le> ?a" using wlt by simp
    then have "2 ^ 24 * ?b \<le> ?a * ?b" using b0 by (intro mult_right_mono) simp_all
    with ab have "?b = 0" using b0 by simp
    then have "sint h = 0" using h by simp
    then have "h = 0" by (rule sint_0_word)
    then show ?thesis by (simp add: cell_count_0)
  qed
qed

lemma sint_origin:
  assumes "0 \<le> sint w"
  shows "sint (origin w) = (sint w mod 128) div 2"
proof -
  have m: "sint w smod 128 = sint w mod 128"
    using assms by (intro smod_nonneg) simp_all
  have b: "0 \<le> sint w mod 128" "sint w mod 128 < 128" by simp_all
  then have s: "sint (c_mod w GRID) = sint w mod 128"
    unfolding c_mod_def by (simp add: GRID_def m sint_32_of_int)
  have d: "(sint w mod 128) sdiv 2 = (sint w mod 128) div 2"
    by (intro sdiv_nonneg) simp_all
  have "0 \<le> (sint w mod 128) div 2" "(sint w mod 128) div 2 < 2 ^ 31"
    using b by simp_all
  then show ?thesis
    unfolding origin_def c_div_def s by (simp add: d sint_32_of_int)
qed

lemma cell_coord_Fin:
  "cell_coord rnd (Fin x) x0 = Inr i \<Longrightarrow> sint i = trunc (rnd (x - real_of_int (sint x0)) / 128)"
  by (auto simp: cell_coord_def GRID_def sint_32_of_int split: if_splits)

lemma select_step_counter:
  assumes "cell_coord rnd (info it ! NDX_X) x0 = Inr i" and "cell_coord rnd (info it ! NDX_Y) y0 = Inr j"
    and "i \<noteq> nw" and "j \<noteq> nh"
  shows "select_step rnd nw nh x0 y0 it (cmap, refs) =
     (if 0 \<le> sint (i * j) \<and> sint (i * j) < int (length cmap)
      then (if sint (cmap ! nat (sint (i * j))) \<le> 5
            then Inr (cmap[nat (sint (i * j)) := cmap ! nat (sint (i * j)) + 1], refs @ [it])
            else Inr (cmap, refs))
      else Inl Index_Out_Of_Bounds)"
  using assms by (simp add: select_step_def Let_def)

lemma select_step_result:
  assumes "select_step rnd nw nh x0 y0 it (cmap, refs) = Inr (cmap', refs')"
  shows "(case counter_index rnd nw nh x0 y0 it of
            None \<Rightarrow> cmap' = cmap \<and> refs' = refs
          | Some k \<Rightarrow> k < length cmap \<and>
              (if sint (cmap ! k) \<le> 5 then cmap' = cmap[k := cmap ! k + 1] \<and> refs' = refs @ [it]
               else cmap' = cmap \<and> refs' = refs))"
  using assms
  by (auto simp: select_step_def counter_index_def Let_def split: sum.splits if_splits)

lemma sint_char_incr:
  "0 \<le> sint (c :: 8 word) \<Longrightarrow> sint c \<le> 5 \<Longrightarrow> sint (c + 1) = sint c + 1"
proof -
  assume a: "0 \<le> sint c" "sint c \<le> 5"
  have "sint (c + 1) = signed_take_bit 7 (sint c + 1)"
    using sint_word_add [of c 1] by simp
  also have "\<dots> = sint c + 1"
    using a by (intro signed_take_bit_int_eq_self) simp_all
  finally show ?thesis .
qed

lemma select_step_inv:
  assumes s: "select_step rnd nw nh x0 y0 it (cmap, refs) = Inr (cmap', refs')"
    and i: "cap_inv rnd nw nh x0 y0 cmap refs"
  shows "cap_inv rnd nw nh x0 y0 cmap' refs'"
proof (cases "counter_index rnd nw nh x0 y0 it")
  case None
  with select_step_result [OF s] i show ?thesis by simp
next
  case (Some k)
  with select_step_result [OF s] have k: "k < length cmap"
    and r: "if sint (cmap ! k) \<le> 5 then cmap' = cmap[k := cmap ! k + 1] \<and> refs' = refs @ [it]
               else cmap' = cmap \<and> refs' = refs"
    by simp_all
  show ?thesis
  proof (cases "sint (cmap ! k) \<le> 5")
    case False
    with r i show ?thesis by simp
  next
    case True
    with r have c: "cmap' = cmap[k := cmap ! k + 1]" and f: "refs' = refs @ [it]" by simp_all
    from i k have n: "0 \<le> sint (cmap ! k)" by (simp add: cap_inv_def)
    have inc: "sint (cmap ! k + 1) = sint (cmap ! k) + 1"
      using n True by (rule sint_char_incr)
    show ?thesis
      unfolding cap_inv_def
    proof (intro conjI ballI allI impI)
      fix a assume "a \<in> set refs'"
      with f have "a \<in> set refs \<or> a = it" by auto
      then show "\<exists>j<length cmap'. counter_index rnd nw nh x0 y0 a = Some j"
        using i k Some by (auto simp: cap_inv_def c)
    next
      fix j assume j: "j < length cmap'"
      then have jl: "j < length cmap" by (simp add: c)
      show "sint (cmap' ! j) =
          int (length (filter (\<lambda>it. counter_index rnd nw nh x0 y0 it = Some j) refs'))"
        using i jl k Some inc by (cases "j = k") (auto simp: cap_inv_def c f)
      show "sint (cmap' ! j) \<le> 6"
        using i jl k True inc by (cases "j = k") (auto simp: cap_inv_def c)
    qed
  qed
qed

lemma select_loop_inv:
  "select_loop rnd nw nh x0 y0 objs st = Inr st' \<Longrightarrow>
   cap_inv rnd nw nh x0 y0 (fst st) (snd st) \<Longrightarrow> cap_inv rnd nw nh x0 y0 (fst st') (snd st')"
proof (induction objs arbitrary: st)
  case Nil
  then show ?case by simp
next
  case (Cons it objs)
  from Cons.prems(1) obtain st1 where
    s: "select_step rnd nw nh x0 y0 it st = Inr st1"
    and l: "select_loop rnd nw nh x0 y0 objs st1 = Inr st'"
    by (auto split: sum.splits)
  have "cap_inv rnd nw nh x0 y0 (fst st1) (snd st1)"
    using select_step_inv [of rnd nw nh x0 y0 it "fst st" "snd st" "fst st1" "snd st1"] s Cons.prems(2)
    by simp
  with Cons.IH [OF l] show ?case .
qed

lemma cap_inv_init: "cap_inv rnd nw nh x0 y0 (replicate n 0) []"
  by (simp add: cap_inv_def)

lemma cap_inv_bound:
  assumes "cap_inv rnd nw nh x0 y0 cmap refs"
  shows "length (filter (\<lambda>it. counter_index rnd nw nh x0 y0 it = Some k) refs) \<le> 6"
proof (cases "k < length cmap")
  case True
  with assms have "int (length (filter (\<lambda>it. counter_index rnd nw nh x0 y0 it = Some k) refs)) \<le> 6"
    by (auto simp: cap_inv_def)
  then show ?thesis by simp
next
  case False
  with assms have "filter (\<lambda>it. counter_index rnd nw nh x0 y0 it = Some k) refs = []"
    by (auto simp: cap_inv_def filter_empty_conv)
  then show ?thesis by simp
qed

subsection \<open>Runs without undefined behaviour\<close>

lemma select_step_returns:
  assumes "step_defined rnd nw nh x0 y0 (length cmap) it"
  shows "\<exists>cmap' refs'. select_step rnd nw nh x0 y0 it (cmap, refs) = Inr (cmap', refs')
           \<and> length cmap' = length cmap"
  using assms by (auto simp: step_defined_def select_step_def Let_def)

lemma select_loop_returns:
  "\<forall>it\<in>set objs. step_defined rnd nw nh x0 y0 (length cmap) it \<Longrightarrow>
   \<exists>cmap' refs'. select_loop rnd nw nh x0 y0 objs (cmap, refs) = Inr (cmap', refs')"
proof (induction objs arbitrary: cmap refs)
  case Nil
  then show ?case by simp
next
  case (Cons it objs)
  then have "step_defined rnd nw nh x0 y0 (length cmap) it" by simp
  from select_step_returns [OF this, of refs] obtain cmap1 refs1 where
    s: "select_step rnd nw nh x0 y0 it (cmap, refs) = Inr (cmap1, refs1)"
    and l: "length cmap1 = length cmap"
    by blast
  from Cons.prems l have "\<forall>it\<in>set objs. step_defined rnd nw nh x0 y0 (length cmap1) it" by simp
  from Cons.IH [OF this, of refs1] s show ?case by simp
qed

lemma select_refstar_returns:
  assumes "\<forall>it\<in>set objs. step_defined rnd (cell_count w) (cell_count h) (origin w) (origin h)
              (nat (sint (cell_count w * cell_count h))) it"
  shows "\<exists>out. select_refstar rnd objs w h refs = Inr out"
proof (cases "sint (cell_count w * cell_count h) < 4")
  case True
  then show ?thesis by (simp add: select_refstar_eq)
next
  case False
  from select_loop_returns [of objs rnd "cell_count w" "cell_count h" "origin w" "origin h"
      "replicate (nat (sint (cell_count w * cell_count h))) 0" refs] assms
  obtain cmap' refs' where "select_loop rnd (cell_count w) (cell_count h) (origin w) (origin h) objs
      (replicate (nat (sint (cell_count w * cell_count h))) 0, refs) = Inr (cmap', refs')"
    by auto
  with False show ?thesis by (simp add: select_refstar_eq)
qed

lemma sint_inject: "sint (a :: 32 word) = sint b \<Longrightarrow> a = b"
proof -
  assume "sint a = sint b"
  then have "(word_of_int (sint a) :: 32 word) = word_of_int (sint b)" by simp
  then show ?thesis by simp
qed

lemma trunc_bounds:
  assumes "- 128 < r" and "r \<le> real_of_int m" and "0 \<le> m"
  shows "0 \<le> trunc (r / 128) \<and> trunc (r / 128) \<le> m div 128"
proof (cases "0 \<le> r")
  case True
  then have "trunc (r / 128) = \<lfloor>r / 128\<rfloor>" by (simp add: trunc_def)
  moreover have "0 \<le> \<lfloor>r / 128\<rfloor>" using True by simp
  moreover have "\<lfloor>r / 128\<rfloor> \<le> \<lfloor>real_of_int m / 128\<rfloor>"
    using assms(2) by (intro floor_mono) simp
  moreover have "\<lfloor>real_of_int m / 128\<rfloor> = m div 128"
    using floor_divide_of_int_eq [of m 128, where ?'a = real] by simp
  ultimately show ?thesis by simp
next
  case False
  then have n: "r / 128 < 0" by simp
  have g: "- 1 < r / 128" using assms(1) by simp
  from n have "trunc (r / 128) = \<lceil>r / 128\<rceil>" by (simp add: trunc_def)
  moreover have "\<lceil>r / 128\<rceil> = 0" using n g by (simp add: ceiling_eq_iff)
  moreover have "0 \<le> m div 128" using assms(3) by simp
  ultimately show ?thesis by simp
qed

lemma sint_cell_count_small:
  assumes "0 \<le> sint v" and "sint v \<le> 2 ^ 22"
  shows "0 \<le> sint (cell_count v) \<and> sint (cell_count v) \<le> 32768"
proof -
  have c: "sint (cell_count v) = (sint v + 127) div 128"
    using assms by (intro sint_cell_count) simp_all
  have "sint v + 127 \<le> 4194431" using assms(2) by simp
  then have "(sint v + 127) div 128 \<le> 4194431 div 128" by (rule zdiv_mono1) simp
  moreover have "0 \<le> (sint v + 127) div 128" using assms(1) by simp
  ultimately show ?thesis unfolding c by simp
qed

lemma coord_in_image:
  assumes r: "rounds_like_float rnd"
    and v: "0 \<le> sint v" "sint v \<le> 2 ^ 22"
    and x: "0 \<le> x" "x \<le> real_of_int (sint v)"
  shows "\<exists>i. cell_coord rnd (Fin x) (origin v) = Inr i
           \<and> 0 \<le> sint i \<and> sint i \<le> sint (cell_count v)"
proof -
  let ?X0 = "(sint v mod 128) div 2"
  have o: "sint (origin v) = ?X0" using v(1) by (rule sint_origin)
  have x0: "0 \<le> ?X0" "?X0 \<le> 63" by simp_all
  let ?rd = "rnd (x - real_of_int ?X0)"
  from r have mono: "\<And>a b. a \<le> b \<Longrightarrow> rnd a \<le> rnd b"
    and fixed: "\<And>n::int. \<bar>n\<bar> \<le> 2 ^ 24 \<Longrightarrow> rnd (real_of_int n) = real_of_int n"
    unfolding rounds_like_float_def by blast+
  have "rnd (real_of_int (- ?X0)) \<le> ?rd" using x(1) by (intro mono) simp
  moreover have "rnd (real_of_int (- ?X0)) = real_of_int (- ?X0)" using x0 by (intro fixed) simp
  ultimately have lo: "- 128 < ?rd" using x0 by simp
  have "?rd \<le> rnd (real_of_int (sint v - ?X0))" using x(2) by (intro mono) simp
  moreover have "rnd (real_of_int (sint v - ?X0)) = real_of_int (sint v - ?X0)"
    using x0 v by (intro fixed) simp
  ultimately have hi: "?rd \<le> real_of_int (sint v - ?X0)" by simp
  have m0: "0 \<le> sint v - ?X0"
  proof -
    have "sint v mod 128 \<le> sint v" using v(1) by (rule zmod_le_nonneg_dividend)
    then show ?thesis by linarith
  qed
  from trunc_bounds [OF lo hi m0]
  have t: "0 \<le> trunc (?rd / 128)" "trunc (?rd / 128) \<le> (sint v - ?X0) div 128" by simp_all
  have "(sint v - ?X0) div 128 \<le> (sint v + 127) div 128"
    using x0 by (intro zdiv_mono1) simp_all
  moreover have c: "sint (cell_count v) = (sint v + 127) div 128"
    using v by (intro sint_cell_count) simp_all
  ultimately have u: "trunc (?rd / 128) \<le> sint (cell_count v)" using t by simp
  have "sint (cell_count v) \<le> 32768" using sint_cell_count_small [OF v] by simp
  with u t have rg: "- (2 ^ 31) \<le> trunc (?rd / 128)" "trunc (?rd / 128) < 2 ^ 31" by simp_all
  then have "cell_coord rnd (Fin x) (origin v) = Inr (word_of_int (trunc (?rd / 128)))"
    by (simp add: cell_coord_def o GRID_def)
  moreover have "sint (word_of_int (trunc (?rd / 128)) :: 32 word) = trunc (?rd / 128)"
    using rg by (rule sint_32_of_int)
  ultimately show ?thesis using t(1) u by auto
qed

lemma sint_small_product:
  assumes "0 \<le> sint (a :: 32 word)" "sint a \<le> 32768" "0 \<le> sint (b :: 32 word)" "sint b \<le> 32768"
  shows "sint (a * b) = sint a * sint b"
proof -
  have "sint a * sint b \<le> 32768 * 32768"
    using assms by (intro mult_mono) simp_all
  moreover have "0 \<le> sint a * sint b" using assms by simp
  ultimately have "signed_take_bit 31 (sint a * sint b) = sint a * sint b"
    by (intro signed_take_bit_int_eq_self) simp_all
  then show ?thesis using sint_word_mult [of a b] by simp
qed

lemma step_defined_in_image:
  assumes r: "rounds_like_float rnd"
    and w: "0 \<le> sint w" "sint w \<le> 2 ^ 22" and h: "0 \<le> sint h" "sint h \<le> 2 ^ 22"
    and x: "info it ! NDX_X = Fin x" "0 \<le> x" "x \<le> real_of_int (sint w)"
    and y: "info it ! NDX_Y = Fin y" "0 \<le> y" "y \<le> real_of_int (sint h)"
  shows "step_defined rnd (cell_count w) (cell_count h) (origin w) (origin h)
           (nat (sint (cell_count w * cell_count h))) it"
proof -
  from coord_in_image [OF r w x(2,3)] obtain i where
    i: "cell_coord rnd (Fin x) (origin w) = Inr i" "0 \<le> sint i" "sint i \<le> sint (cell_count w)"
    by blast
  from coord_in_image [OF r h y(2,3)] obtain j where
    j: "cell_coord rnd (Fin y) (origin h) = Inr j" "0 \<le> sint j" "sint j \<le> sint (cell_count h)"
    by blast
  note cw = sint_cell_count_small [OF w] and ch = sint_cell_count_small [OF h]
  have "i = cell_count w \<or> j = cell_count h
      \<or> (0 \<le> sint (i * j) \<and> sint (i * j) < int (nat (sint (cell_count w * cell_count h))))"
  proof (cases "i = cell_count w \<or> j = cell_count h")
    case True
    then show ?thesis by blast
  next
    case False
    then have "sint i \<noteq> sint (cell_count w)" "sint j \<noteq> sint (cell_count h)"
      by (auto dest: sint_inject)
    with i j have lt: "sint i + 1 \<le> sint (cell_count w)" "sint j + 1 \<le> sint (cell_count h)" by simp_all
    have p: "sint (i * j) = sint i * sint j"
      using i j cw ch by (intro sint_small_product) simp_all
    have q: "sint (cell_count w * cell_count h) = sint (cell_count w) * sint (cell_count h)"
      using cw ch by (intro sint_small_product) simp_all
    have "(sint i + 1) * (sint j + 1) \<le> sint (cell_count w) * sint (cell_count h)"
      using lt i j by (intro mult_mono) simp_all
    then have "sint i * sint j < sint (cell_count w) * sint (cell_count h)"
      using i j by (simp add: algebra_simps)
    moreover have "0 \<le> sint i * sint j" using i j by simp
    ultimately show ?thesis unfolding p q by simp
  qed
  with i j x(1) y(1) show ?thesis unfolding step_defined_def by auto
qed

text \<open>
  When all candidates are inside an image of at most 4194304 by 4194304 pixels,
  \<open>select_refstar\<close> returns a reference set: no conversion is undefined and no counter is
  out of bounds.
\<close>

lemma in_image_selection_returns:
  assumes "rounds_like_float rnd"
    and "0 \<le> sint w" "sint w \<le> 2 ^ 22" and "0 \<le> sint h" "sint h \<le> 2 ^ 22"
    and "\<forall>it\<in>set objs. \<exists>x y. info it ! NDX_X = Fin x \<and> 0 \<le> x \<and> x \<le> real_of_int (sint w)
                            \<and> info it ! NDX_Y = Fin y \<and> 0 \<le> y \<and> y \<le> real_of_int (sint h)"
  shows "\<exists>out. select_refstar rnd objs w h refs = Inr out"
proof (rule select_refstar_returns, rule ballI)
  fix it assume "it \<in> set objs"
  with assms(6) obtain x y where "info it ! NDX_X = Fin x" "0 \<le> x" "x \<le> real_of_int (sint w)"
    "info it ! NDX_Y = Fin y" "0 \<le> y" "y \<le> real_of_int (sint h)"
    by blast
  then show "step_defined rnd (cell_count w) (cell_count h) (origin w) (origin h)
           (nat (sint (cell_count w * cell_count h))) it"
    by (intro step_defined_in_image assms)
qed

lemma id_rounds_like_float: "rounds_like_float id"
  by (simp add: rounds_like_float_def)

subsection \<open>The model on the sample inputs\<close>

lemma getline_numeral:
  "getline (numeral k) [] = ([], [], True)"
  "getline (numeral k) (c # s) =
     (if c = CHR 0x0A then ([c], s, False)
      else (case getline (pred_numeral k) s of (l, r, e) \<Rightarrow> (c # l, r, e)))"
  by (simp_all add: numeral_eq_Suc)

lemma list_numeral:
  "replicate (numeral n) x = x # replicate (pred_numeral n) x"
  "(y # ys)[numeral n := x] = y # ys[pred_numeral n := x]"
  by (simp_all add: numeral_eq_Suc)

lemma sample_data_lines:
  "data_lines sample_cat =
     [''10 20 100 3 1\<newline>'', ''30 40 20 3 1\<newline>'', ''50 60 200 3 1\<newline>'', ''70 80 100 3\<newline>'']"
  by (simp add: sample_cat_def data_lines_def read_lines.simps feof_def fgets_def getline_numeral
        first_byte_def)

lemmas parse_eval = parse_line_info line_tokens_def c_str_def strtok_all.simps strtok_def seps_def
  atof_digits_def

lemma sample_parsed:
  "parsed_records atof_digits sample_cat =
     [star 10 20 100 3 1, star 30 40 20 3 1, star 50 60 200 3 1, star 70 80 100 3 0]"
  unfolding parsed_records_def sample_data_lines
  by (simp add: aobject.equality parse_eval star_def)

lemmas admitted_eval = admitted_def fgreater_def NDX_FLUX_def NDX_FWHM_def NDX_ELON_def star_def

lemma sample_load:
  "load_cat atof_digits insertion_sort sample_fs ''sample.cat'' [] =
     (True, [star 50 60 200 3 1, star 70 80 100 3 0, star 10 20 100 3 1])"
  by (simp add: load_cat_def sample_fs_def read_loop_eq data_lines_def [symmetric]
        parsed_records_def [symmetric] sample_parsed)
     (simp add: admitted_eval less_brightness_def)

lemma sample_load_rev:
  "load_cat atof_digits insertion_sort_rev sample_fs ''sample.cat'' [] =
     (True, [star 50 60 200 3 1, star 10 20 100 3 1, star 70 80 100 3 0])"
  by (simp add: load_cat_def sample_fs_def read_loop_eq data_lines_def [symmetric]
        parsed_records_def [symmetric] sample_parsed insertion_sort_rev_def)
     (simp add: admitted_eval less_brightness_def)

lemma grid_512: "cell_count 512 = 4" "origin 512 = 0"
  by (simp_all add: cell_count_def origin_def c_div_def c_mod_def GRID_def
        signed_divide_int_def signed_modulo_int_def)

lemmas coord_eval = cell_coord_def GRID_def trunc_def star_def NDX_X_def NDX_Y_def

lemma crowd_coords:
  "cell_coord id (info (star 200 300 900 3 1) ! NDX_X) 0 = Inr 1"
  "cell_coord id (info (star 200 300 900 3 1) ! NDX_Y) 0 = Inr 2"
  "cell_coord id (info (star 300 200 300 3 1) ! NDX_X) 0 = Inr 2"
  "cell_coord id (info (star 300 200 300 3 1) ! NDX_Y) 0 = Inr 1"
  by (simp_all add: coord_eval)

lemma crowd_selected: "select_refstar id crowd 512 512 [] = Inr (take 6 crowd)"
  by (simp add: select_refstar_eq grid_512 crowd_def select_step_def coord_eval list_numeral)

lemma crowd_index:
  "map (counter_index id 4 4 0 0) crowd =
     [Some 2, Some 2, Some 2, Some 2, Some 2, Some 2, Some 2, Some 2]"
  by (simp add: crowd_def counter_index_def coord_eval)

lemma grid_228: "cell_count 228 = 2" "cell_count 256 = 2" "origin 228 = 50" "origin 256 = 0"
  by (simp_all add: cell_count_def origin_def c_div_def c_mod_def GRID_def
        signed_divide_int_def signed_modulo_int_def)

lemma args_eval:
  "atoi_digits ''512'' = 512" "replace_after_dot ''five.cat'' ''.axy'' = ''five.axy''"
  "replace_after_dot ''sample.cat'' ''.axy'' = ''sample.axy''"
  by (simp_all add: atoi_digits_def replace_after_dot_def)

lemma five_load: "load_cat atof_digits insertion_sort five_fs ''five.cat'' [] = (True, five_stars)"
proof -
  have d: "data_lines five_cat =
     [''10 20 100 3 1\<newline>'', ''30 40 500 3 1\<newline>'', ''50 60 200 3 1\<newline>'', ''70 80 400 3 1\<newline>'',
      ''90 95 300 3 1\<newline>'']"
    by (simp add: five_cat_def data_lines_def read_lines.simps feof_def fgets_def getline_numeral
          first_byte_def)
  have p: "parsed_records atof_digits five_cat =
     [star 10 20 100 3 1, star 30 40 500 3 1, star 50 60 200 3 1, star 70 80 400 3 1,
      star 90 95 300 3 1]"
    unfolding parsed_records_def d by (simp add: aobject.equality parse_eval star_def)
  have f: "filter admitted (parsed_records atof_digits five_cat) =
     [star 10 20 100 3 1, star 30 40 500 3 1, star 50 60 200 3 1, star 70 80 400 3 1,
      star 90 95 300 3 1]"
    unfolding p by (simp add: admitted_eval)
  have s: "insertion_sort less_brightness
     [star 10 20 100 3 1, star 30 40 500 3 1, star 50 60 200 3 1, star 70 80 400 3 1,
      star 90 95 300 3 1] = five_stars"
    by (simp add: less_brightness_def fgreater_def NDX_FLUX_def star_def five_stars_def)
  show ?thesis
    by (simp add: load_cat_def five_fs_def read_loop_eq data_lines_def [symmetric]
          parsed_records_def [symmetric] f s del: insertion_sort.simps)
qed

lemma five_selected: "select_refstar id five_stars 512 512 [] = Inr five_stars"
  by (simp add: select_refstar_eq grid_512 five_stars_def select_step_def coord_eval list_numeral)

lemma sample_selected:
  "select_refstar id [star 50 60 200 3 1, star 70 80 100 3 0, star 10 20 100 3 1] 512 512 []
     = Inr [star 50 60 200 3 1, star 70 80 100 3 0, star 10 20 100 3 1]"
  by (simp add: select_refstar_eq grid_512 select_step_def coord_eval list_numeral)

subsection \<open>Lines of the file and runs of a line\<close>

text \<open>
  When every line of the file fits the buffer, \<open>fgets\<close> reads the file line by line; and
  the tokens that \<open>strtok\<close> finds in a line are the runs of bytes other than the space and
  the carriage return, up to the first NUL byte.
\<close>

lemma text_lines_nonempty: "[] \<notin> set (text_lines s)"
  by (induction s) (auto split: list.splits)

lemma getline_eof_rest: "getline n s = (l, r, True) \<Longrightarrow> r = []"
  by (induction n s arbitrary: l r rule: getline.induct) (auto split: if_splits prod.splits)

lemma getline_text_line:
  "text_lines s = l # ls \<Longrightarrow> length l \<le> n \<Longrightarrow> \<exists>r e. getline n s = (l, r, e) \<and> text_lines r = ls"
proof (induction s arbitrary: n l ls)
  case Nil
  then show ?case by simp
next
  case (Cons c s)
  from Cons.prems(1) have "l \<noteq> []"
    using text_lines_nonempty [of "c # s"] by auto
  with Cons.prems(2) obtain m where n: "n = Suc m" by (cases n) auto
  show ?case
  proof (cases "c = CHR 0x0A")
    case True
    with Cons.prems n show ?thesis by auto
  next
    case nl: False
    show ?thesis
    proof (cases "text_lines s")
      case Nil
      then have s: "s = []" by (cases s) (auto split: if_splits list.splits)
      from Nil nl Cons.prems(1) have "l = [c]" "ls = []" by auto
      then show ?thesis using nl n s by (cases m) auto
    next
      case more: (Cons l' ls')
      with nl Cons.prems(1) have l: "l = c # l'" "ls = ls'" by auto
      with Cons.prems(2) n have "length l' \<le> m" by simp
      from Cons.IH [OF more this] obtain r e where "getline m s = (l', r, e)" "text_lines r = ls'"
        by blast
      with l nl n show ?thesis by auto
    qed
  qed
qed

lemma read_lines_text_lines:
  "\<forall>l\<in>set (text_lines bytes). length l \<le> 199 \<Longrightarrow>
   read_lines \<lparr>unread = bytes, eof = False\<rparr> = text_lines bytes"
proof (induction "length bytes" arbitrary: bytes rule: less_induct)
  case less
  show ?case
  proof (cases "text_lines bytes")
    case Nil
    then have b: "bytes = []" by (cases bytes) (auto split: if_splits list.splits)
    have "read_lines \<lparr>unread = [], eof = False\<rparr> = []"
      by (simp add: read_lines.simps feof_def fgets_def getline_numeral)
    with Nil b show ?thesis by simp
  next
    case (Cons l ls)
    with less.prems have "length l \<le> 199" by simp
    from getline_text_line [OF Cons this] obtain r e where
      g: "getline 199 bytes = (l, r, e)" and t: "text_lines r = ls"
      by blast
    have ne: "l \<noteq> []" using text_lines_nonempty [of bytes] Cons by auto
    have step: "read_lines \<lparr>unread = bytes, eof = False\<rparr> = l # read_lines \<lparr>unread = r, eof = e\<rparr>"
      by (subst read_lines.simps) (simp add: feof_def fgets_def g ne)
    show ?thesis
    proof (cases e)
      case True
      with g have "r = []" by (auto dest: getline_eof_rest)
      with t have "ls = []" by simp
      moreover have "read_lines \<lparr>unread = r, eof = e\<rparr> = []"
        using True by (simp add: read_lines_eof feof_def)
      ultimately show ?thesis using step Cons by simp
    next
      case False
      have "length r < length bytes" using g ne by (rule getline_shorter)
      moreover have "\<forall>l\<in>set (text_lines r). length l \<le> 199"
        using less.prems Cons t by simp
      ultimately have "read_lines \<lparr>unread = r, eof = False\<rparr> = text_lines r"
        by (rule less.hyps)
      with step False t Cons show ?thesis by simp
    qed
  qed
qed

lemma strtok_all_sep:
  "c \<in> set seps \<Longrightarrow> strtok_all (c # s) = strtok_all s"
  by (subst strtok_all.simps, subst (2) strtok_all.simps) (simp add: strtok_def)

lemma strtok_all_token:
  "c \<notin> set seps \<Longrightarrow>
   strtok_all (c # s) =
     (c # takeWhile (\<lambda>c. c \<notin> set seps) s)
       # strtok_all (drop 1 (dropWhile (\<lambda>c. c \<notin> set seps) s))"
  by (subst strtok_all.simps) (simp add: strtok_def)

lemma strtok_all_runs: "strtok_all s = token_runs (\<lambda>c. c \<in> set seps) s"
proof (induction "\<lambda>c. c \<in> set seps" s rule: token_runs.induct)
  case 1
  show ?case by (simp add: strtok_all_None strtok_def)
next
  case (2 c)
  show ?case
    by (cases "c \<in> set seps")
       (simp_all add: strtok_all_sep strtok_all_token strtok_all_None strtok_def)
next
  case (3 c d s)
  show ?case
  proof (cases "c \<in> set seps")
    case True
    with 3 show ?thesis by (simp add: strtok_all_sep)
  next
    case c: False
    show ?thesis
    proof (cases "d \<in> set seps")
      case True
      with c 3 show ?thesis by (simp add: strtok_all_token)
    next
      case d: False
      from 3(3) [OF c d] have "token_runs (\<lambda>c. c \<in> set seps) (d # s) = strtok_all (d # s)" by simp
      then show ?thesis using c d by (simp add: strtok_all_token)
    qed
  qed
qed

lemma line_tokens_runs:
  "line_tokens line = token_runs (\<lambda>c. c = CHR '' '' \<or> c = CHR 0x0D) (c_str line)"
proof -
  have "(\<lambda>c. c \<in> set seps) = (\<lambda>c. c = CHR '' '' \<or> c = CHR 0x0D)" by (auto simp: seps_def)
  then show ?thesis by (simp add: line_tokens_def strtok_all_runs)
qed

lemma data_lines_text_lines:
  "\<forall>l\<in>set (text_lines bytes). length l \<le> 199 \<Longrightarrow>
   data_lines bytes = filter (\<lambda>line. first_byte line \<noteq> CHR ''#'') (text_lines bytes)"
  by (simp add: data_lines_def read_lines_text_lines)

lemma sample_text_lines:
  "text_lines sample_cat =
     [''# X Y FLUX FWHM ELONGATION\<newline>'', ''10 20 100 3 1\<newline>'', ''30 40 20 3 1\<newline>'',
      ''50 60 200 3 1\<newline>'', ''70 80 100 3\<newline>'']"
  by (simp add: sample_cat_def)

section \<open>The claims\<close>



text \<open>
  Claim C2. The list that \<open>load_cat\<close> returns is in descending order of flux: each record's
  flux is greater than or equal to the flux of the next one. Nothing is said of the order
  of records of equal flux, which depends on the sorting algorithm.
\<close>

theorem load_cat_sorted:
  assumes "sort_contract srt" and "load_cat atof srt fopen filepath [] = (ok, objs)"
  shows "\<forall>i. Suc i < length objs \<longrightarrow>
           fgreater_eq (info (objs ! i) ! NDX_FLUX) (info (objs ! Suc i) ! NDX_FLUX)"
proof (cases "fopen filepath")
  case None
  with assms(2) show ?thesis by (simp add: load_cat_def)
next
  case (Some bytes)
  from load_cat_opened [where fopen = fopen and filepath = filepath, OF assms(1) Some, of atof] assms(2)
  have s: "sorted_wrt (\<lambda>a b. \<not> less_brightness b a) objs" by auto
  from load_cat_set [OF assms(1) Some assms(2)]
  have a: "\<forall>one\<in>set objs. admitted one" by auto
  show ?thesis
  proof (intro allI impI)
    fix i assume i: "Suc i < length objs"
    then have "\<not> less_brightness (objs ! Suc i) (objs ! i)"
      using sorted_wrt_nth_less [OF s, of i "Suc i"] by simp
    moreover have "info (objs ! i) ! NDX_FLUX \<noteq> NaN" "info (objs ! Suc i) ! NDX_FLUX \<noteq> NaN"
      using a i by (auto intro!: admitted_flux)
    ultimately show "fgreater_eq (info (objs ! i) ! NDX_FLUX) (info (objs ! Suc i) ! NDX_FLUX)"
      by (simp add: fgreater_eq_def less_brightness_def fgreater_def)
  qed
qed

theorem load_cat_sorted_witness:
  "(\<exists>objs. load_cat atof_digits insertion_sort sample_fs ''sample.cat'' [] = (True, objs)
     \<and> length objs = 3
     \<and> info (objs ! 0) ! NDX_FLUX = Fin 200 \<and> info (objs ! 1) ! NDX_FLUX = Fin 100
     \<and> info (objs ! 2) ! NDX_FLUX = Fin 100
     \<and> fgreater_eq (info (objs ! 0) ! NDX_FLUX) (info (objs ! Suc 0) ! NDX_FLUX)
     \<and> fgreater_eq (info (objs ! 1) ! NDX_FLUX) (info (objs ! Suc 1) ! NDX_FLUX))
   \<and> snd (load_cat atof_digits insertion_sort sample_fs ''sample.cat'' [])
       = [star 50 60 200 3 1, star 70 80 100 3 0, star 10 20 100 3 1]
   \<and> snd (load_cat atof_digits insertion_sort_rev sample_fs ''sample.cat'' [])
       = [star 50 60 200 3 1, star 10 20 100 3 1, star 70 80 100 3 0]
   \<and> fgreater_eq (info (snd (load_cat atof_digits insertion_sort_rev sample_fs ''sample.cat'' []) ! 1)
                     ! NDX_FLUX)
        (info (snd (load_cat atof_digits insertion_sort_rev sample_fs ''sample.cat'' []) ! Suc 1)
           ! NDX_FLUX)"
proof -
  note t = load_cat_sorted [OF insertion_sort_contract sample_load]
  note u = load_cat_sorted [OF insertion_sort_rev_contract sample_load_rev]
  from t [rule_format, of 0] t [rule_format, of 1] u [rule_format, of 1] show ?thesis
    by (simp add: sample_load sample_load_rev star_def NDX_FLUX_def)
qed

text \<open>
  Claim C3. In the general case the counter that an iteration tests and increments is
  \<^verbatim>\<open>map[i * j]\<close>: two candidates that are not discarded and whose cell coordinates have
  equal products use the same counter, and there are candidates in distinct cells, such
  as (1, 2) and (2, 1), that do.
\<close>

theorem shared_counter:
  "(cell_coord rnd (info a ! NDX_X) x0 = Inr i1 \<and> cell_coord rnd (info a ! NDX_Y) y0 = Inr j1
    \<and> cell_coord rnd (info b ! NDX_X) x0 = Inr i2 \<and> cell_coord rnd (info b ! NDX_Y) y0 = Inr j2
    \<and> i1 \<noteq> nw \<and> j1 \<noteq> nh \<and> i2 \<noteq> nw \<and> j2 \<noteq> nh \<and> i1 * j1 = i2 * j2
    \<longrightarrow> counter_index rnd nw nh x0 y0 a = counter_index rnd nw nh x0 y0 b
      \<and> select_step rnd nw nh x0 y0 a (cmap, refs) =
          (if 0 \<le> sint (i1 * j1) \<and> sint (i1 * j1) < int (length cmap)
           then (if sint (cmap ! nat (sint (i1 * j1))) \<le> 5
                 then Inr (cmap[nat (sint (i1 * j1)) := cmap ! nat (sint (i1 * j1)) + 1], refs @ [a])
                 else Inr (cmap, refs))
           else Inl Index_Out_Of_Bounds)
      \<and> select_step rnd nw nh x0 y0 b (cmap, refs) =
          (if 0 \<le> sint (i1 * j1) \<and> sint (i1 * j1) < int (length cmap)
           then (if sint (cmap ! nat (sint (i1 * j1))) \<le> 5
                 then Inr (cmap[nat (sint (i1 * j1)) := cmap ! nat (sint (i1 * j1)) + 1], refs @ [b])
                 else Inr (cmap, refs))
           else Inl Index_Out_Of_Bounds))
   \<and> (\<exists>c d ic jc id' jd.
         cell_coord id (info c ! NDX_X) (origin 512) = Inr ic
       \<and> cell_coord id (info c ! NDX_Y) (origin 512) = Inr jc
       \<and> cell_coord id (info d ! NDX_X) (origin 512) = Inr id'
       \<and> cell_coord id (info d ! NDX_Y) (origin 512) = Inr jd
       \<and> (ic, jc) \<noteq> (id', jd)
       \<and> counter_index id (cell_count 512) (cell_count 512) (origin 512) (origin 512) c = Some 2
       \<and> counter_index id (cell_count 512) (cell_count 512) (origin 512) (origin 512) d = Some 2)"
proof (intro conjI impI)
  assume h: "cell_coord rnd (info a ! NDX_X) x0 = Inr i1 \<and> cell_coord rnd (info a ! NDX_Y) y0 = Inr j1
    \<and> cell_coord rnd (info b ! NDX_X) x0 = Inr i2 \<and> cell_coord rnd (info b ! NDX_Y) y0 = Inr j2
    \<and> i1 \<noteq> nw \<and> j1 \<noteq> nh \<and> i2 \<noteq> nw \<and> j2 \<noteq> nh \<and> i1 * j1 = i2 * j2"
  then show "counter_index rnd nw nh x0 y0 a = counter_index rnd nw nh x0 y0 b"
    by (simp add: counter_index_def)
  from h show "select_step rnd nw nh x0 y0 a (cmap, refs) =
          (if 0 \<le> sint (i1 * j1) \<and> sint (i1 * j1) < int (length cmap)
           then (if sint (cmap ! nat (sint (i1 * j1))) \<le> 5
                 then Inr (cmap[nat (sint (i1 * j1)) := cmap ! nat (sint (i1 * j1)) + 1], refs @ [a])
                 else Inr (cmap, refs))
           else Inl Index_Out_Of_Bounds)"
    by (intro select_step_counter) simp_all
  from h have "select_step rnd nw nh x0 y0 b (cmap, refs) =
          (if 0 \<le> sint (i2 * j2) \<and> sint (i2 * j2) < int (length cmap)
           then (if sint (cmap ! nat (sint (i2 * j2))) \<le> 5
                 then Inr (cmap[nat (sint (i2 * j2)) := cmap ! nat (sint (i2 * j2)) + 1], refs @ [b])
                 else Inr (cmap, refs))
           else Inl Index_Out_Of_Bounds)"
    by (intro select_step_counter) simp_all
  with h show "select_step rnd nw nh x0 y0 b (cmap, refs) =
          (if 0 \<le> sint (i1 * j1) \<and> sint (i1 * j1) < int (length cmap)
           then (if sint (cmap ! nat (sint (i1 * j1))) \<le> 5
                 then Inr (cmap[nat (sint (i1 * j1)) := cmap ! nat (sint (i1 * j1)) + 1], refs @ [b])
                 else Inr (cmap, refs))
           else Inl Index_Out_Of_Bounds)"
    by simp
next
  have "counter_index id 4 4 0 0 (star 200 300 900 3 1) = Some 2"
    "counter_index id 4 4 0 0 (star 300 200 300 3 1) = Some 2"
    by (simp_all add: counter_index_def coord_eval)
  moreover have "((1 :: 32 word), (2 :: 32 word)) \<noteq> (2, 1)" by simp
  ultimately show "\<exists>c d ic jc id' jd.
         cell_coord id (info c ! NDX_X) (origin 512) = Inr ic
       \<and> cell_coord id (info c ! NDX_Y) (origin 512) = Inr jc
       \<and> cell_coord id (info d ! NDX_X) (origin 512) = Inr id'
       \<and> cell_coord id (info d ! NDX_Y) (origin 512) = Inr jd
       \<and> (ic, jc) \<noteq> (id', jd)
       \<and> counter_index id (cell_count 512) (cell_count 512) (origin 512) (origin 512) c = Some 2
       \<and> counter_index id (cell_count 512) (cell_count 512) (origin 512) (origin 512) d = Some 2"
    unfolding grid_512 using crowd_coords by blast
qed

text \<open>
  On a 512 by 512 image six stars in cell (1, 2) fill the counter 2; a star in the
  cell (2, 1), where no other star is, is then refused.
\<close>

theorem shared_counter_witness:
  "counter_index id 4 4 0 0 (star 200 300 900 3 1) = counter_index id 4 4 0 0 (star 300 200 300 3 1)
   \<and> select_step id 4 4 0 0 (star 200 300 900 3 1) (replicate 16 0, []) =
        Inr ((replicate 16 0)[2 := 1], [star 200 300 900 3 1])
   \<and> select_step id 4 4 0 0 (star 300 200 300 3 1) ((replicate 16 0)[2 := 6], take 6 crowd) =
        Inr ((replicate 16 0)[2 := 6], take 6 crowd)
   \<and> select_refstar id crowd 512 512 [] = Inr (take 6 crowd)
   \<and> star 300 200 300 3 1 \<in> set crowd \<and> star 300 200 300 3 1 \<notin> set (take 6 crowd)"
proof -
  have p: "(1 :: 32 word) \<noteq> 4" "(2 :: 32 word) \<noteq> 4" "(1 :: 32 word) * 2 = 2 * 1" by simp_all
  note t = shared_counter [where rnd = id and a = "star 200 300 900 3 1" and ?x0.0 = 0 and ?y0.0 = 0
      and ?i1.0 = 1 and ?j1.0 = 2 and b = "star 300 200 300 3 1" and ?i2.0 = 2 and ?j2.0 = 1
      and nw = 4 and nh = 4, THEN conjunct1, rule_format]
  have 1: "counter_index id 4 4 0 0 (star 200 300 900 3 1)
      = counter_index id 4 4 0 0 (star 300 200 300 3 1)"
    using t [where cmap = "[]" and refs = "[]"] crowd_coords p by blast
  have 2: "select_step id 4 4 0 0 (star 200 300 900 3 1) (replicate 16 0, []) =
        Inr ((replicate 16 0)[2 := 1], [star 200 300 900 3 1])"
    using t [where cmap = "replicate 16 0" and refs = "[]", THEN conjunct2, THEN conjunct1]
      crowd_coords p
    by (simp add: list_numeral)
  have 3: "select_step id 4 4 0 0 (star 300 200 300 3 1) ((replicate 16 0)[2 := 6], take 6 crowd) =
        Inr ((replicate 16 0)[2 := 6], take 6 crowd)"
    using t [where cmap = "(replicate 16 0)[2 := 6]" and refs = "take 6 crowd",
        THEN conjunct2, THEN conjunct2] crowd_coords p
    by (simp add: list_numeral)
  have 4: "star 300 200 300 3 1 \<in> set crowd \<and> star 300 200 300 3 1 \<notin> set (take 6 crowd)"
    by (simp add: crowd_def star_def)
  from 1 2 3 4 crowd_selected show ?thesis by simp
qed

text \<open>
  Claim C4. In the general case an iteration adds its candidate to the reference set
  only if the counter at the candidate's index is at most 5, and it then increments that
  counter; so, over the whole run, at most 6 accepted candidates have any one counter
  index.
\<close>

theorem per_counter_cap:
  "(select_step rnd nw nh x0 y0 it (cmap, refs) = Inr (cmap', refs') \<and> refs' \<noteq> refs \<longrightarrow>
      (\<exists>k<length cmap. counter_index rnd nw nh x0 y0 it = Some k \<and> sint (cmap ! k) \<le> 5
         \<and> cmap' = cmap[k := cmap ! k + 1] \<and> refs' = refs @ [it]))
   \<and> (\<not> sint (cell_count w * cell_count h) < 4 \<and> select_refstar rnd objs w h [] = Inr out \<longrightarrow>
        (\<forall>k. length (filter (\<lambda>it. counter_index rnd (cell_count w) (cell_count h)
                                     (origin w) (origin h) it = Some k) out) \<le> 6))"
proof (intro conjI impI)
  assume a: "select_step rnd nw nh x0 y0 it (cmap, refs) = Inr (cmap', refs') \<and> refs' \<noteq> refs"
  with select_step_result [of rnd nw nh x0 y0 it cmap refs cmap' refs']
  show "\<exists>k<length cmap. counter_index rnd nw nh x0 y0 it = Some k \<and> sint (cmap ! k) \<le> 5
         \<and> cmap' = cmap[k := cmap ! k + 1] \<and> refs' = refs @ [it]"
    by (cases "counter_index rnd nw nh x0 y0 it") (auto split: if_splits)
next
  assume a: "\<not> sint (cell_count w * cell_count h) < 4 \<and> select_refstar rnd objs w h [] = Inr out"
  let ?n = "nat (sint (cell_count w * cell_count h))"
  from a obtain cmap' where
    l: "select_loop rnd (cell_count w) (cell_count h) (origin w) (origin h) objs
          (replicate ?n 0, []) = Inr (cmap', out)"
    by (auto simp: select_refstar_eq split: sum.splits)
  from select_loop_inv [OF l] have "cap_inv rnd (cell_count w) (cell_count h) (origin w) (origin h) cmap' out"
    by (simp add: cap_inv_init)
  then show "\<forall>k. length (filter (\<lambda>it. counter_index rnd (cell_count w) (cell_count h)
                                     (origin w) (origin h) it = Some k) out) \<le> 6"
    by (blast intro: cap_inv_bound)
qed

theorem per_counter_cap_witness:
  "\<not> sint (cell_count 512 * cell_count 512) < 4
   \<and> select_refstar id crowd 512 512 [] = Inr (take 6 crowd)
   \<and> length crowd = 8
   \<and> length (filter (\<lambda>it. counter_index id 4 4 0 0 it = Some 2) crowd) = 8
   \<and> length (filter (\<lambda>it. counter_index id (cell_count 512) (cell_count 512)
                                (origin 512) (origin 512) it = Some 2) (take 6 crowd)) \<le> 6"
proof -
  have g: "\<not> sint (cell_count 512 * cell_count 512) < 4" by (simp add: grid_512)
  have "filter (\<lambda>it. counter_index id 4 4 0 0 it = Some 2) crowd
      = map fst (filter (\<lambda>p. snd p = Some 2) (zip crowd (map (counter_index id 4 4 0 0) crowd)))"
    by (simp add: crowd_def)
  then have e: "length (filter (\<lambda>it. counter_index id 4 4 0 0 it = Some 2) crowd) = 8"
    unfolding crowd_index by (simp add: crowd_def)
  from per_counter_cap [where rnd = id and w = 512 and h = 512 and objs = crowd and out = "take 6 crowd",
      THEN conjunct2] g crowd_selected
  have "length (filter (\<lambda>it. counter_index id (cell_count 512) (cell_count 512)
                                (origin 512) (origin 512) it = Some 2) (take 6 crowd)) \<le> 6"
    by blast
  with g crowd_selected e show ?thesis by (simp add: crowd_def)
qed

text \<open>
  Claim C5. For every candidate list and every width and height (non-negative
  \<^verbatim>\<open>int\<close> values) with ceil(w / 128) * ceil(h / 128) < 4, \<open>select_refstar\<close> returns the
  candidates as they are, in number and order; so it does for width 100 and height 100.
\<close>

theorem small_image_passthrough:
  assumes "0 \<le> sint w" and "0 \<le> sint h"
    and "\<lceil>real_of_int (sint w) / real_of_int (sint GRID)\<rceil>
          * \<lceil>real_of_int (sint h) / real_of_int (sint GRID)\<rceil> < 4"
  shows "select_refstar rnd objs w h [] = Inr objs"
proof -
  have "real_of_int (sint GRID) = 128" by (simp add: GRID_def)
  with assms(3) have "\<lceil>real_of_int (sint w) / 128\<rceil> * \<lceil>real_of_int (sint h) / 128\<rceil> < 4"
    by (simp only:)
  from few_cells [OF assms(1,2) this] show ?thesis
    by (simp add: select_refstar_eq)
qed

theorem small_image_passthrough_witness:
  "\<lceil>real_of_int (sint (100 :: 32 word)) / real_of_int (sint GRID)\<rceil>
          * \<lceil>real_of_int (sint (100 :: 32 word)) / real_of_int (sint GRID)\<rceil> = 1
   \<and> select_refstar id [star 50 60 200 3 1, star 70 80 100 3 0, star 10 20 100 3 1] 100 100 []
       = Inr [star 50 60 200 3 1, star 70 80 100 3 0, star 10 20 100 3 1]"
proof -
  have c: "\<lceil>real_of_int (sint (100 :: 32 word)) / real_of_int (sint GRID)\<rceil>
          * \<lceil>real_of_int (sint (100 :: 32 word)) / real_of_int (sint GRID)\<rceil> = 1"
    by (simp add: GRID_def)
  have "select_refstar id [star 50 60 200 3 1, star 70 80 100 3 0, star 10 20 100 3 1] 100 100 []
       = Inr [star 50 60 200 3 1, star 70 80 100 3 0, star 10 20 100 3 1]"
    by (rule small_image_passthrough) (simp_all add: GRID_def)
  with c show ?thesis by simp
qed

text \<open>
  Claim C6, as stated, fails: on an image of width 228 and height 256 (2 by 2 cells,
  \<open>x0 = 50\<close>) a star at \<open>x = 10\<close> gets the cell coordinate 0, not floor((10 - 50) / 128) = -1,
  and is accepted.
\<close>

theorem truncation_is_not_floor:
  "\<not> sint (cell_count 228 * cell_count 256) < 4
   \<and> origin 228 = 50
   \<and> cell_coord id (info (star 10 200 100 3 1) ! NDX_X) (origin 228) = Inr 0
   \<and> \<lfloor>(10 - real_of_int (sint (origin 228))) / real_of_int (sint GRID)\<rfloor> = - 1
   \<and> select_refstar id [star 10 200 100 3 1] 228 256 [] = Inr [star 10 200 100 3 1]"
proof -
  have "select_refstar id [star 10 200 100 3 1] 228 256 [] = Inr [star 10 200 100 3 1]"
    by (simp add: select_refstar_eq grid_228 select_step_def coord_eval list_numeral)
  then show ?thesis
    by (simp add: grid_228 coord_eval)
qed

text \<open>
  Claim C6, amended. In the general case the origin is \<open>x0 = (w mod 128) / 2\<close>,
  \<open>y0 = (h mod 128) / 2\<close> (for a non-negative width and height), and the cell coordinates
  of a candidate are the quotients \<open>(x - x0) / 128\<close> and \<open>(y - y0) / 128\<close> truncated towards
  zero by the conversion to \<^verbatim>\<open>int\<close>; that is the floor when \<open>x \<ge> x0\<close> and the subtraction is
  exact. A candidate with \<open>i = nw\<close> or \<open>j = nh\<close> is discarded: the iteration changes neither
  the reference set nor a counter.
\<close>

theorem cell_index_and_clipping:
  "(0 \<le> sint w \<longrightarrow> sint (origin w) = (sint w mod sint GRID) div 2)
   \<and> (cell_coord rnd (Fin x) x0 = Inr i \<longrightarrow>
        sint i = trunc (rnd (x - real_of_int (sint x0)) / real_of_int (sint GRID)))
   \<and> (cell_coord rnd (Fin x) x0 = Inr i \<and> rnd (x - real_of_int (sint x0)) = x - real_of_int (sint x0)
        \<and> real_of_int (sint x0) \<le> x \<longrightarrow>
        sint i = \<lfloor>(x - real_of_int (sint x0)) / real_of_int (sint GRID)\<rfloor>)
   \<and> (\<not> sint (cell_count w * cell_count h) < 4 \<longrightarrow>
        select_refstar rnd objs w h refs =
          (case select_loop rnd (cell_count w) (cell_count h) (origin w) (origin h) objs
                  (replicate (nat (sint (cell_count w * cell_count h))) 0, refs) of
             Inl e \<Rightarrow> Inl e
           | Inr (cmap', refs') \<Rightarrow> Inr refs'))
   \<and> (cell_coord rnd (info it ! NDX_X) x0 = Inr i' \<and> cell_coord rnd (info it ! NDX_Y) y0 = Inr j'
        \<and> (i' = nw \<or> j' = nh) \<longrightarrow>
        select_step rnd nw nh x0 y0 it (cmap, refs) = Inr (cmap, refs)
        \<and> counter_index rnd nw nh x0 y0 it = None)"
proof -
  have g: "sint GRID = 128" and gr: "real_of_int (sint GRID) = 128" by (simp_all add: GRID_def)
  have 1: "0 \<le> sint w \<longrightarrow> sint (origin w) = (sint w mod sint GRID) div 2"
    unfolding g by (blast intro: sint_origin)
  have 2: "cell_coord rnd (Fin x) x0 = Inr i \<longrightarrow>
        sint i = trunc (rnd (x - real_of_int (sint x0)) / real_of_int (sint GRID))"
    unfolding gr by (blast intro: cell_coord_Fin)
  have 3: "cell_coord rnd (Fin x) x0 = Inr i \<and> rnd (x - real_of_int (sint x0)) = x - real_of_int (sint x0)
        \<and> real_of_int (sint x0) \<le> x \<longrightarrow>
        sint i = \<lfloor>(x - real_of_int (sint x0)) / real_of_int (sint GRID)\<rfloor>"
  proof
    assume a: "cell_coord rnd (Fin x) x0 = Inr i \<and> rnd (x - real_of_int (sint x0)) = x - real_of_int (sint x0)
        \<and> real_of_int (sint x0) \<le> x"
    then have "sint i = trunc ((x - real_of_int (sint x0)) / 128)"
      using cell_coord_Fin [of rnd x x0 i] by (simp only:)
    moreover have "0 \<le> (x - real_of_int (sint x0)) / 128" using a by simp
    ultimately show "sint i = \<lfloor>(x - real_of_int (sint x0)) / real_of_int (sint GRID)\<rfloor>"
      unfolding gr trunc_def by (simp only: if_True)
  qed
  have 4: "\<not> sint (cell_count w * cell_count h) < 4 \<longrightarrow>
        select_refstar rnd objs w h refs =
          (case select_loop rnd (cell_count w) (cell_count h) (origin w) (origin h) objs
                  (replicate (nat (sint (cell_count w * cell_count h))) 0, refs) of
             Inl e \<Rightarrow> Inl e
           | Inr (cmap', refs') \<Rightarrow> Inr refs')"
    by (simp add: select_refstar_eq)
  have 5: "cell_coord rnd (info it ! NDX_X) x0 = Inr i' \<and> cell_coord rnd (info it ! NDX_Y) y0 = Inr j'
        \<and> (i' = nw \<or> j' = nh) \<longrightarrow>
        select_step rnd nw nh x0 y0 it (cmap, refs) = Inr (cmap, refs)
        \<and> counter_index rnd nw nh x0 y0 it = None"
    by (auto simp: select_step_def counter_index_def)
  from 1 2 3 4 5 show ?thesis by (intro conjI)
qed

theorem cell_index_and_clipping_witness:
  "sint (origin 228) = (sint (228 :: 32 word) mod sint GRID) div 2
   \<and> origin 228 = 50
   \<and> cell_coord id (Fin 300) 50 = Inr 1
   \<and> sint (1 :: 32 word) = \<lfloor>(300 - real_of_int (sint (50 :: 32 word))) / real_of_int (sint GRID)\<rfloor>
   \<and> cell_coord id (info (star 512 100 100 3 1) ! NDX_X) 0 = Inr 4
   \<and> select_step id 4 4 0 0 (star 512 100 100 3 1) (replicate 16 0, [])
       = Inr (replicate 16 0, [])
   \<and> counter_index id 4 4 0 0 (star 512 100 100 3 1) = None"
proof -
  note t = cell_index_and_clipping [where rnd = id]
  have a: "cell_coord id (Fin 300) 50 = Inr 1"
    "cell_coord id (info (star 512 100 100 3 1) ! NDX_X) 0 = Inr 4"
    "cell_coord id (info (star 512 100 100 3 1) ! NDX_Y) 0 = Inr 0"
    by (simp_all add: coord_eval)
  have 1: "sint (origin 228) = (sint (228 :: 32 word) mod sint GRID) div 2"
    using t [where w = 228, THEN conjunct1] by simp
  have 3: "sint (1 :: 32 word) = \<lfloor>(300 - real_of_int (sint (50 :: 32 word))) / real_of_int (sint GRID)\<rfloor>"
    using t [where x = 300 and ?x0.0 = 50 and i = 1, THEN conjunct2, THEN conjunct2, THEN conjunct1] a(1)
    by simp
  have 5: "select_step id 4 4 0 0 (star 512 100 100 3 1) (replicate 16 0, [])
       = Inr (replicate 16 0, [])
     \<and> counter_index id 4 4 0 0 (star 512 100 100 3 1) = None"
    using t [where it = "star 512 100 100 3 1" and ?x0.0 = 0 and ?y0.0 = 0 and i' = 4 and j' = 0
        and nw = 4 and nh = 4 and cmap = "replicate 16 0" and refs = "[]",
        THEN conjunct2, THEN conjunct2, THEN conjunct2, THEN conjunct2] a(2,3)
    by simp
  from 1 3 5 a grid_228 show ?thesis by simp
qed

text \<open>
  Claim C7, as stated, fails in the text that is reported: with three reference stars
  the driver prints \<^verbatim>\<open>not found enough reference stars\<close>.
\<close>

theorem message_is_not_found_enough:
  "main atof_digits atoi_digits insertion_sort id replace_after_dot sample_fs
       [''cat2axy'', ''sample.cat'', ''512'', ''512'']
     = Inr \<lparr>cout = ''not found enough reference stars'' @ endl, tables = [], returned = 0\<rparr>
   \<and> ''not found enough reference stars'' @ endl \<noteq> ''not enough reference stars'' @ endl
   \<and> ''not found enough reference stars'' @ endl \<noteq> ''not enough reference stars''"
  by (simp add: main_def sample_load args_eval sample_selected endl_def)

text \<open>
  Claim C7, amended. After a successful load, when fewer than 5 reference stars are
  selected the driver prints \<^verbatim>\<open>not found enough reference stars\<close> and writes no table;
  when 5 or more are selected it calls \<open>output_axy\<close> exactly once, on the reference stars
  and the path of the catalog with its extension replaced by \<^verbatim>\<open>.axy\<close>.
\<close>

theorem driver_threshold:
  assumes "4 \<le> length argv"
    and "load_cat atof srt fopen (argv ! 1) [] = (True, objs)"
    and "select_refstar rnd objs (atoi (argv ! 2)) (atoi (argv ! 3)) [] = Inr refs"
  shows "(length refs < 5 \<longrightarrow>
            main atof atoi srt rnd replace_extension fopen argv =
              Inr \<lparr>cout = ''not found enough reference stars'' @ endl, tables = [], returned = 0\<rparr>)
       \<and> (5 \<le> length refs \<longrightarrow>
            main atof atoi srt rnd replace_extension fopen argv =
              Inr \<lparr>cout = [], tables = [output_axy refs (replace_extension (argv ! 1) ''.axy'')],
                   returned = 0\<rparr>
            \<and> axy_path (output_axy refs (replace_extension (argv ! 1) ''.axy''))
                = replace_extension (argv ! 1) ''.axy'')"
  using assms by (simp add: main_def Let_def output_axy_def)

theorem driver_threshold_witness:
  "main atof_digits atoi_digits insertion_sort id replace_after_dot five_fs
       [''cat2axy'', ''five.cat'', ''512'', ''512'']
     = Inr \<lparr>cout = [], tables = [output_axy five_stars ''five.axy''], returned = 0\<rparr>
   \<and> length five_stars = 5
   \<and> axy_path (output_axy five_stars ''five.axy'') = ''five.axy''
   \<and> axy_X (output_axy five_stars ''five.axy'') = [Fin 30, Fin 70, Fin 90, Fin 50, Fin 10]
   \<and> axy_Y (output_axy five_stars ''five.axy'') = [Fin 40, Fin 80, Fin 95, Fin 60, Fin 20]"
proof -
  have l: "length five_stars = 5" by (simp add: five_stars_def)
  have "main atof_digits atoi_digits insertion_sort id replace_after_dot five_fs
       [''cat2axy'', ''five.cat'', ''512'', ''512'']
     = Inr \<lparr>cout = [], tables = [output_axy five_stars ''five.axy''], returned = 0\<rparr>"
    using driver_threshold [where argv = "[''cat2axy'', ''five.cat'', ''512'', ''512'']"
        and atof = atof_digits and srt = insertion_sort and fopen = five_fs and objs = five_stars
        and rnd = id and atoi = atoi_digits and refs = five_stars
        and replace_extension = replace_after_dot]
    by (simp add: five_load five_selected args_eval l)
  then show ?thesis
    by (simp add: l output_axy_def five_stars_def star_def NDX_X_def NDX_Y_def)
qed

text \<open>
  Claim C8, as stated, fails: the last line of the sample catalog has four tokens and its
  record, with elongation zero, is in the list that \<open>load_cat\<close> returns.
\<close>

theorem four_token_line_in_list:
  "text_lines sample_cat ! 4 = ''70 80 100 3\<newline>''
   \<and> length (line_tokens ''70 80 100 3\<newline>'') = 4
   \<and> parse_line atof_digits ''70 80 100 3\<newline>'' = star 70 80 100 3 0
   \<and> star 70 80 100 3 0
       \<in> set (snd (load_cat atof_digits insertion_sort sample_fs ''sample.cat'' []))"
proof -
  have "line_tokens ''70 80 100 3\<newline>'' = [''70'', ''80'', ''100'', ''3\<newline>'']"
    by (simp add: line_tokens_def c_str_def strtok_all.simps strtok_def seps_def)
  moreover have "parse_line atof_digits ''70 80 100 3\<newline>'' = star 70 80 100 3 0"
    by (rule aobject.equality) (simp_all add: parse_eval star_def eval_nat_numeral)
  ultimately show ?thesis
    by (simp add: sample_text_lines sample_load)
qed

text \<open>
  Claim C8, amended. Take a catalog in which every line, its newline included, is at most
  199 bytes long, so that it fits the buffer of 200 bytes that \<open>load_cat\<close> reads a line
  into. The tokens of a line are the maximal runs of bytes other than the space and the
  carriage return, in the line up to its first NUL byte if it has one. Every record in the
  list that \<open>load_cat\<close> returns was parsed from a line that does not start with \<^verbatim>\<open>#\<close> and
  has at least four tokens: its fields x, y, flux and fwhm are the \<open>atof\<close> values of the
  first four tokens of that line, and its elongation is the \<open>atof\<close> value of the fifth
  token when the line has one and zero otherwise. A line with fewer than four tokens
  contributes no record. Nothing is stated of a catalog with a longer line.
\<close>

theorem load_cat_fields_from_tokens:
  assumes "sort_contract srt" and "fopen filepath = Some bytes"
    and "\<forall>line\<in>set (text_lines bytes). length line \<le> 199"
    and "load_cat atof srt fopen filepath [] = (ok, objs)"
  shows "(\<forall>one\<in>set objs. \<exists>line\<in>set (text_lines bytes).
            first_byte line \<noteq> CHR ''#''
          \<and> one = parse_line atof line
          \<and> 4 \<le> length (line_tokens line)
          \<and> info one ! NDX_X = atof (line_tokens line ! 0)
          \<and> info one ! NDX_Y = atof (line_tokens line ! 1)
          \<and> info one ! NDX_FLUX = atof (line_tokens line ! 2)
          \<and> info one ! NDX_FWHM = atof (line_tokens line ! 3)
          \<and> info one ! NDX_ELON =
                (if 5 \<le> length (line_tokens line) then atof (line_tokens line ! 4) else Fin 0))
       \<and> (\<forall>line\<in>set (text_lines bytes). length (line_tokens line) < 4 \<longrightarrow>
             \<not> admitted (parse_line atof line) \<and> parse_line atof line \<notin> set objs)
       \<and> (\<forall>line. line_tokens line =
                   token_runs (\<lambda>c. c = CHR '' '' \<or> c = CHR 0x0D) (c_str line))"
proof (intro conjI ballI impI allI)
  note s = load_cat_set [OF assms(1,2,4)]
  note d = data_lines_text_lines [OF assms(3)]
  {
    fix one assume "one \<in> set objs"
    with s d obtain line where
      l: "line \<in> set (text_lines bytes)" and c: "first_byte line \<noteq> CHR ''#''"
      and o: "one = parse_line atof line" and a: "admitted one"
      by (auto simp: parsed_records_def)
    from a o have f: "4 \<le> length (line_tokens line)" by (simp add: admitted_four_tokens)
    then have "info one ! NDX_X = atof (line_tokens line ! 0)"
      "info one ! NDX_Y = atof (line_tokens line ! 1)"
      "info one ! NDX_FLUX = atof (line_tokens line ! 2)"
      "info one ! NDX_FWHM = atof (line_tokens line ! 3)"
      "info one ! NDX_ELON =
         (if 5 \<le> length (line_tokens line) then atof (line_tokens line ! 4) else Fin 0)"
      by (auto simp: o parse_line_nth NDX_X_def NDX_Y_def NDX_FLUX_def NDX_FWHM_def NDX_ELON_def)
    with l c o f show "\<exists>line\<in>set (text_lines bytes).
            first_byte line \<noteq> CHR ''#''
          \<and> one = parse_line atof line
          \<and> 4 \<le> length (line_tokens line)
          \<and> info one ! NDX_X = atof (line_tokens line ! 0)
          \<and> info one ! NDX_Y = atof (line_tokens line ! 1)
          \<and> info one ! NDX_FLUX = atof (line_tokens line ! 2)
          \<and> info one ! NDX_FWHM = atof (line_tokens line ! 3)
          \<and> info one ! NDX_ELON =
                (if 5 \<le> length (line_tokens line) then atof (line_tokens line ! 4) else Fin 0)"
      by blast
  }
  {
    fix line assume "line \<in> set (text_lines bytes)" and t: "length (line_tokens line) < 4"
    then show n: "\<not> admitted (parse_line atof line)" by (auto dest: admitted_four_tokens)
    with s show "parse_line atof line \<notin> set objs" by simp
  }
  fix line show "line_tokens line = token_runs (\<lambda>c. c = CHR '' '' \<or> c = CHR 0x0D) (c_str line)"
    by (rule line_tokens_runs)
qed

theorem load_cat_fields_from_tokens_witness:
  "load_cat atof_digits insertion_sort sample_fs ''sample.cat'' [] =
     (True, [star 50 60 200 3 1, star 70 80 100 3 0, star 10 20 100 3 1])
   \<and> text_lines sample_cat ! 4 = ''70 80 100 3\<newline>''
   \<and> length (text_lines sample_cat ! 4) = 12
   \<and> (\<exists>line\<in>set (text_lines sample_cat).
         first_byte line \<noteq> CHR ''#''
       \<and> star 70 80 100 3 0 = parse_line atof_digits line
       \<and> 4 \<le> length (line_tokens line)
       \<and> info (star 70 80 100 3 0) ! NDX_X = atof_digits (line_tokens line ! 0)
       \<and> info (star 70 80 100 3 0) ! NDX_Y = atof_digits (line_tokens line ! 1)
       \<and> info (star 70 80 100 3 0) ! NDX_FLUX = atof_digits (line_tokens line ! 2)
       \<and> info (star 70 80 100 3 0) ! NDX_FWHM = atof_digits (line_tokens line ! 3)
       \<and> info (star 70 80 100 3 0) ! NDX_ELON =
            (if 5 \<le> length (line_tokens line) then atof_digits (line_tokens line ! 4) else Fin 0))"
proof -
  have f: "sample_fs ''sample.cat'' = Some sample_cat" by (simp add: sample_fs_def)
  have b: "\<forall>line\<in>set (text_lines sample_cat). length line \<le> 199"
    by (simp add: sample_text_lines)
  have m: "star 70 80 100 3 0 \<in> set [star 50 60 200 3 1, star 70 80 100 3 0, star 10 20 100 3 1]"
    by simp
  have e: "text_lines sample_cat ! 4 = ''70 80 100 3\<newline>''"
    "length (text_lines sample_cat ! 4) = 12"
    by (simp_all add: sample_text_lines)
  note t = load_cat_fields_from_tokens [where fopen = sample_fs and filepath = "''sample.cat''",
      OF insertion_sort_contract f b sample_load]
  from t [THEN conjunct1, rule_format, OF m] sample_load e
  show ?thesis by (intro conjI)
qed

text \<open>
  Claim C9, as stated, fails: a readable catalog whose only line has four tokens, fewer
  than five, does not give an empty list.
\<close>

theorem four_token_catalog_not_empty:
  "text_lines short_cat = [''1 2 100 3\<newline>'']
   \<and> length (line_tokens ''1 2 100 3\<newline>'') < 5
   \<and> load_cat atof_digits insertion_sort short_fs ''short.cat'' [] = (True, [star 1 2 100 3 0])
   \<and> [star 1 2 100 3 0] \<noteq> []"
proof -
  have r: "read_lines \<lparr>unread = short_cat, eof = False\<rparr> = [''1 2 100 3\<newline>'']"
    by (simp add: short_cat_def read_lines.simps feof_def fgets_def getline_numeral)
  have x: "text_lines short_cat = [''1 2 100 3\<newline>'']"
    by (simp add: short_cat_def)
  have t: "line_tokens ''1 2 100 3\<newline>'' = [''1'', ''2'', ''100'', ''3\<newline>'']"
    by (simp add: line_tokens_def c_str_def strtok_all.simps strtok_def seps_def)
  have p: "parse_line atof_digits ''1 2 100 3\<newline>'' = star 1 2 100 3 0"
    by (rule aobject.equality) (simp_all add: parse_eval star_def eval_nat_numeral)
  have "load_cat atof_digits insertion_sort short_fs ''short.cat'' [] = (True, [star 1 2 100 3 0])"
    by (simp add: load_cat_def short_fs_def read_loop_eq r first_byte_def p)
       (simp add: admitted_eval)
  with x t show ?thesis by simp
qed

text \<open>
  Claim C9, amended. \<open>load_cat\<close> returns failure exactly when the catalog cannot be
  opened for reading. For a readable file an empty list is a successful result: a catalog
  in which every line, its newline included, is at most 199 bytes long (it fits the buffer
  of 200 bytes) and either starts with \<^verbatim>\<open>#\<close> or has fewer than four tokens gives the empty
  list and success. The tokens of a line are the maximal runs of bytes other than the
  space and the carriage return, in the line up to its first NUL byte if it has one.
  Nothing is stated of a catalog with a longer line.
\<close>

theorem load_cat_failure_and_empty:
  "(fst (load_cat atof srt fopen filepath objs) = False \<longleftrightarrow> fopen filepath = None)
   \<and> (sort_contract srt \<and> fopen filepath = Some bytes
        \<and> (\<forall>line\<in>set (text_lines bytes).
              length line \<le> 199
              \<and> (first_byte line = CHR ''#'' \<or> length (line_tokens line) < 4))
      \<longrightarrow> load_cat atof srt fopen filepath [] = (True, []))
   \<and> (\<forall>line. line_tokens line =
               token_runs (\<lambda>c. c = CHR '' '' \<or> c = CHR 0x0D) (c_str line))"
proof (intro conjI impI allI)
  show "fst (load_cat atof srt fopen filepath objs) = False \<longleftrightarrow> fopen filepath = None"
    by (simp add: load_cat_def split: option.splits)
next
  assume a: "sort_contract srt \<and> fopen filepath = Some bytes
        \<and> (\<forall>line\<in>set (text_lines bytes).
              length line \<le> 199
              \<and> (first_byte line = CHR ''#'' \<or> length (line_tokens line) < 4))"
  then have b: "\<forall>line\<in>set (text_lines bytes). length line \<le> 199" by blast
  have "filter admitted (parsed_records atof bytes) = []"
  proof -
    have "\<forall>one\<in>set (parsed_records atof bytes). \<not> admitted one"
    proof
      fix one assume "one \<in> set (parsed_records atof bytes)"
      then obtain line where l: "line \<in> set (text_lines bytes)"
        and n: "first_byte line \<noteq> CHR ''#''" and o: "one = parse_line atof line"
        by (auto simp: parsed_records_def data_lines_text_lines [OF b])
      with a have "length (line_tokens line) < 4" by blast
      then show "\<not> admitted one" unfolding o by (auto dest: admitted_four_tokens)
    qed
    then show ?thesis by (simp add: filter_empty_conv)
  qed
  with load_cat_opened [where fopen = fopen and filepath = filepath and atof = atof and srt = srt
      and bytes = bytes] a
  show "load_cat atof srt fopen filepath [] = (True, [])" by auto
next
  fix line show "line_tokens line = token_runs (\<lambda>c. c = CHR '' '' \<or> c = CHR 0x0D) (c_str line)"
    by (rule line_tokens_runs)
qed

theorem load_cat_failure_and_empty_witness:
  "fst (load_cat atof_digits insertion_sort comment_fs ''missing.cat'' []) = False
   \<and> comment_fs ''missing.cat'' = None
   \<and> text_lines comment_cat = [''# only a comment\<newline>'', ''5 6 700\<newline>'']
   \<and> length (line_tokens ''5 6 700\<newline>'') = 3
   \<and> load_cat atof_digits insertion_sort comment_fs ''comment.cat'' [] = (True, [])"
proof -
  have r: "text_lines comment_cat = [''# only a comment\<newline>'', ''5 6 700\<newline>'']"
    by (simp add: comment_cat_def)
  have t: "line_tokens ''5 6 700\<newline>'' = [''5'', ''6'', ''700\<newline>'']"
    by (simp add: line_tokens_def c_str_def strtok_all.simps strtok_def seps_def)
  have n: "comment_fs ''missing.cat'' = None" and f: "comment_fs ''comment.cat'' = Some comment_cat"
    by (simp_all add: comment_fs_def)
  note c = load_cat_failure_and_empty [where atof = atof_digits and srt = insertion_sort
      and fopen = comment_fs and bytes = comment_cat]
  from c [where filepath = "''missing.cat''" and objs = "[]", THEN conjunct1] n
  have 1: "fst (load_cat atof_digits insertion_sort comment_fs ''missing.cat'' []) = False" by simp
  from c [where filepath = "''comment.cat''" and objs = "[]", THEN conjunct2, THEN conjunct1]
    insertion_sort_contract f
  have 2: "load_cat atof_digits insertion_sort comment_fs ''comment.cat'' [] = (True, [])"
    by (simp add: r t first_byte_def)
  from 1 2 n r t show ?thesis by simp
qed

text \<open>
  Claim C10. A record starts with its five fields zero, so the fields that the tokens
  of a line do not reach are exactly zero. A line with fewer than three tokens leaves the
  flux zero and fails the comparison flux > 30.0: its iteration of the loop of \<open>load_cat\<close>
  adds nothing to the list.
\<close>

theorem short_line_rejected:
  "info make_aobject = [Fin 0, Fin 0, Fin 0, Fin 0, Fin 0]
   \<and> (\<forall>k. length (line_tokens line) \<le> k \<and> k < 5 \<longrightarrow> info (parse_line atof line) ! k = Fin 0)
   \<and> (length (line_tokens line) < 3 \<longrightarrow>
        info (parse_line atof line) ! NDX_FLUX = Fin 0
        \<and> \<not> fgreater (info (parse_line atof line) ! NDX_FLUX) (Fin 30)
        \<and> \<not> admitted (parse_line atof line)
        \<and> (\<forall>fp fp' objs. \<not> feof fp \<and> fgets 200 fp = (Some line, fp') \<longrightarrow>
              read_loop atof fp objs = read_loop atof fp' objs))"
proof (intro conjI allI impI)
  show "info make_aobject = [Fin 0, Fin 0, Fin 0, Fin 0, Fin 0]"
    by (simp add: make_aobject_def NDX_NUM_def NDX_ELON_def eval_nat_numeral)
next
  fix k assume "length (line_tokens line) \<le> k \<and> k < 5"
  then show "info (parse_line atof line) ! k = Fin 0" by (simp add: parse_line_nth)
next
  assume l: "length (line_tokens line) < 3"
  then show f: "info (parse_line atof line) ! NDX_FLUX = Fin 0"
    by (simp add: parse_line_nth NDX_FLUX_def)
  then show g: "\<not> fgreater (info (parse_line atof line) ! NDX_FLUX) (Fin 30)"
    by (simp add: fgreater_def)
  then show n: "\<not> admitted (parse_line atof line)" by (simp add: admitted_def)
  fix fp fp' objs
  assume a: "\<not> feof fp \<and> fgets 200 fp = (Some line, fp')"
  show "read_loop atof fp objs = read_loop atof fp' objs"
    by (subst read_loop.simps) (simp add: a n Let_def)
qed

theorem short_line_rejected_witness:
  "length (line_tokens ''30 40\<newline>'') = 2
   \<and> parse_line atof_digits ''30 40\<newline>'' = star 30 40 0 0 0
   \<and> \<not> admitted (parse_line atof_digits ''30 40\<newline>'')
   \<and> fgets 200 \<lparr>unread = ''30 40\<newline>'', eof = False\<rparr> = (Some ''30 40\<newline>'', \<lparr>unread = [], eof = False\<rparr>)
   \<and> read_loop atof_digits \<lparr>unread = ''30 40\<newline>'', eof = False\<rparr> [] = []"
proof -
  have l: "line_tokens ''30 40\<newline>'' = [''30'', ''40\<newline>'']"
    by (simp add: line_tokens_def c_str_def strtok_all.simps strtok_def seps_def)
  have g: "fgets 200 \<lparr>unread = ''30 40\<newline>'', eof = False\<rparr> = (Some ''30 40\<newline>'', \<lparr>unread = [], eof = False\<rparr>)"
    by (simp add: fgets_def getline_numeral)
  have p: "parse_line atof_digits ''30 40\<newline>'' = star 30 40 0 0 0"
    by (rule aobject.equality) (simp_all add: parse_eval star_def eval_nat_numeral)
  have e: "read_loop atof_digits \<lparr>unread = [], eof = False\<rparr> [] = []"
    by (simp add: read_loop_eq read_lines.simps feof_def fgets_def getline_numeral)
  from short_line_rejected [of "''30 40\<newline>''" atof_digits]
  have "\<not> admitted (parse_line atof_digits ''30 40\<newline>'')"
    and "read_loop atof_digits \<lparr>unread = ''30 40\<newline>'', eof = False\<rparr> []
       = read_loop atof_digits \<lparr>unread = [], eof = False\<rparr> []"
    using g by (simp_all add: l feof_def)
  then show ?thesis using l g p e by simp
qed

end
